theory Spec2Isabelle
  imports Main "HOL-Library.Multiset"
begin

section \<open>Format selection (main.go, selectFormat and its two helpers)\<close>

text \<open>
  The fields of \<^verbatim>\<open>youtube.Format\<close> that main.go reads. Go's \<^verbatim>\<open>string\<close> is a
  sequence of bytes, as is \<^typ>\<open>string\<close>; \<^verbatim>\<open>AudioChannels\<close> is a Go \<^verbatim>\<open>int\<close>, of
  which only the sign is inspected.
\<close>

record Format =
  MimeType :: string
  Quality :: string
  AudioChannels :: int

text \<open>\<^verbatim>\<open>strings.HasPrefix(s, prefix)\<close>: \<^verbatim>\<open>len(s) >= len(prefix) && s[:len(prefix)] == prefix\<close>.\<close>

definition HasPrefix :: "string \<Rightarrow> string \<Rightarrow> bool" where
  "HasPrefix s p = (length p \<le> length s \<and> take (length p) s = p)"

text \<open>
  A returned \<^verbatim>\<open>&video.Formats[i]\<close> is modelled by the index \<open>i\<close>, the nil pointer by
  \<open>None\<close>. A loop \<^verbatim>\<open>for i := range video.Formats\<close> that returns at the first hit is
  the recursion \<open>firstIndexFrom\<close>, with \<open>i\<close> the index of the head of the rest.
\<close>

fun firstIndexFrom :: "('a \<Rightarrow> bool) \<Rightarrow> nat \<Rightarrow> 'a list \<Rightarrow> nat option" where
  "firstIndexFrom P i [] = None"
| "firstIndexFrom P i (f # fs) = (if P f then Some i else firstIndexFrom P (Suc i) fs)"

definition isAudioMime :: "Format \<Rightarrow> bool" where
  "isAudioMime f = HasPrefix (MimeType f) ''audio/''"

definition hasAudioChannels :: "Format \<Rightarrow> bool" where
  "hasAudioChannels f = (AudioChannels f > 0)"

definition isVideoMime :: "Format \<Rightarrow> bool" where
  "isVideoMime f = HasPrefix (MimeType f) ''video/''"

definition selectBestAudioFormat :: "Format list \<Rightarrow> nat option" where
  "selectBestAudioFormat formats =
     (case firstIndexFrom isAudioMime 0 formats of
        Some i \<Rightarrow> Some i
      | None \<Rightarrow>
          (case firstIndexFrom hasAudioChannels 0 formats of
             Some i \<Rightarrow> Some i
           | None \<Rightarrow> None))"

text \<open>
  The loop of \<^verbatim>\<open>selectBestVideoFormat\<close>: \<open>bestFormat\<close> is the loop's variable, \<open>i\<close> the
  index of the head of the rest.
\<close>

fun videoLoop :: "nat \<Rightarrow> nat option \<Rightarrow> Format list \<Rightarrow> nat option" where
  "videoLoop i bestFormat [] = bestFormat"
| "videoLoop i bestFormat (f # fs) =
     videoLoop (Suc i)
       (if isVideoMime f then
          (if bestFormat = None \<or> Quality f \<noteq> ''tiny'' then Some i else bestFormat)
        else bestFormat)
       fs"

definition selectBestVideoFormat :: "Format list \<Rightarrow> nat option" where
  "selectBestVideoFormat formats = videoLoop 0 None formats"

text \<open>
  The run-time panics the program can raise: an index out of range, \<^verbatim>\<open>make\<close> of a
  channel with a negative size, and \<^verbatim>\<open>wg.Done()\<close> on a wait group whose counter is zero.
\<close>

datatype panic = IndexOutOfRange | MakechanSizeOutOfRange | NegativeWaitGroupCounter

text \<open>
  \<^verbatim>\<open>selectFormat\<close>: the default branch evaluates \<^verbatim>\<open>&video.Formats[0]\<close>, which panics
  with an index out of range on an empty slice.
\<close>

definition selectFormat :: "string \<Rightarrow> Format list \<Rightarrow> panic + nat option" where
  "selectFormat downloadType formats =
     (if downloadType = ''audio'' then Inr (selectBestAudioFormat formats)
      else if downloadType = ''video'' then Inr (selectBestVideoFormat formats)
      else (case formats of [] \<Rightarrow> Inl IndexOutOfRange | _ # _ \<Rightarrow> Inr (Some 0)))"

text \<open>A video descriptor whose quality label is not the sentinel \<^verbatim>\<open>"tiny"\<close>.\<close>

definition goodVideo :: "Format \<Rightarrow> bool" where
  "goodVideo f = (isVideoMime f \<and> Quality f \<noteq> ''tiny'')"

text \<open>The descriptor sequences of the selector's examples.\<close>

definition audioExample :: "Format list" where
  "audioExample =
     [\<lparr>MimeType = ''video/mp4'', Quality = ''medium'', AudioChannels = 2\<rparr>,
      \<lparr>MimeType = ''audio/mp4'', Quality = ''tiny'', AudioChannels = 2\<rparr>]"

definition videoExample :: "Format list" where
  "videoExample =
     [\<lparr>MimeType = ''video/mp4'', Quality = ''tiny'', AudioChannels = 0\<rparr>,
      \<lparr>MimeType = ''video/webm'', Quality = ''medium'', AudioChannels = 0\<rparr>,
      \<lparr>MimeType = ''video/mp4'', Quality = ''tiny'', AudioChannels = 0\<rparr>]"

definition soleTinyExample :: "Format list" where
  "soleTinyExample = [\<lparr>MimeType = ''video/mp4'', Quality = ''tiny'', AudioChannels = 0\<rparr>]"

definition twoTinyExample :: "Format list" where
  "twoTinyExample =
     [\<lparr>MimeType = ''video/mp4'', Quality = ''tiny'', AudioChannels = 0\<rparr>,
      \<lparr>MimeType = ''video/webm'', Quality = ''tiny'', AudioChannels = 0\<rparr>]"

section \<open>Properties of the format selector\<close>

subsection \<open>The first index of a scan\<close>

lemma firstIndexFrom_None: "firstIndexFrom P k xs = None \<longleftrightarrow> (\<forall>j<length xs. \<not> P (xs ! j))"
proof (induction xs arbitrary: k)
  case Nil
  show ?case by simp
next
  case (Cons x xs)
  show ?case
  proof (cases "P x")
    case True
    then show ?thesis by auto
  next
    case False
    then show ?thesis using Cons.IH [of "Suc k"] by (auto simp: less_Suc_eq_0_disj)
  qed
qed

lemma firstIndexFrom_Some:
  "firstIndexFrom P k xs = Some i \<longleftrightarrow>
     k \<le> i \<and> i - k < length xs \<and> P (xs ! (i - k)) \<and> (\<forall>j<i - k. \<not> P (xs ! j))"
proof (induction xs arbitrary: k)
  case Nil
  show ?case by simp
next
  case (Cons x xs)
  show ?case
  proof (cases "P x")
    case True
    show ?thesis
    proof (cases "i = k")
      case True
      then show ?thesis using \<open>P x\<close> by simp
    next
      case False
      have "\<not> (k \<le> i \<and> (\<forall>j<i - k. \<not> P ((x # xs) ! j)))"
      proof
        assume a: "k \<le> i \<and> (\<forall>j<i - k. \<not> P ((x # xs) ! j))"
        then have "0 < i - k" using False by simp
        then have "\<not> P ((x # xs) ! 0)" using a by blast
        then show False using \<open>P x\<close> by simp
      qed
      then show ?thesis using False \<open>P x\<close> by auto
    qed
  next
    case False
    have "(k \<le> i \<and> i - k < length (x # xs) \<and> P ((x # xs) ! (i - k)) \<and> (\<forall>j<i - k. \<not> P ((x # xs) ! j)))
        \<longleftrightarrow> (Suc k \<le> i \<and> i - Suc k < length xs \<and> P (xs ! (i - Suc k)) \<and> (\<forall>j<i - Suc k. \<not> P (xs ! j)))"
      (is "?L \<longleftrightarrow> ?R")
    proof
      assume L: ?L
      then have ne: "i \<noteq> k" using False by (cases "i = k") auto
      then obtain d where d: "i - k = Suc d" using L by (cases "i - k") auto
      then have d': "i - Suc k = d" by simp
      show ?R using L ne unfolding d d' by auto
    next
      assume R: ?R
      then obtain d where d: "i - k = Suc d" and d': "i - Suc k = d" by (cases "i - k") auto
      show ?L using R False unfolding d d' by (auto simp: less_Suc_eq_0_disj)
    qed
    then show ?thesis using False Cons.IH [of "Suc k"] by simp
  qed
qed

subsection \<open>The video loop\<close>

lemma videoLoop_append:
  "videoLoop k b (xs @ ys) = videoLoop (k + length xs) (videoLoop k b xs) ys"
  by (induction xs arbitrary: k b) simp_all

lemma videoLoop_no_video:
  "\<forall>f\<in>set fs. \<not> isVideoMime f \<Longrightarrow> videoLoop k b fs = b"
  by (induction fs arbitrary: k) simp_all

lemma videoLoop_keep:
  "\<forall>f\<in>set fs. \<not> goodVideo f \<Longrightarrow> videoLoop k (Some x) fs = Some x"
  by (induction fs arbitrary: k) (simp_all add: goodVideo_def)

lemma videoLoop_first:
  "\<forall>f\<in>set fs. \<not> goodVideo f \<Longrightarrow> videoLoop k None fs = firstIndexFrom isVideoMime k fs"
  by (induction fs arbitrary: k) (simp_all add: goodVideo_def videoLoop_keep)

lemma videoLoop_last_good:
  assumes "goodVideo f" and "\<forall>g\<in>set ys. \<not> goodVideo g"
  shows "videoLoop k b (xs @ f # ys) = Some (k + length xs)"
  using assms by (simp add: videoLoop_append videoLoop_keep goodVideo_def)

lemma videoLoop_None:
  "videoLoop k b fs = None \<longleftrightarrow> b = None \<and> (\<forall>f\<in>set fs. \<not> isVideoMime f)"
  by (induction fs arbitrary: k b) auto

lemma selectBestVideoFormat_last_good:
  assumes i: "i < length fs" and g: "goodVideo (fs ! i)"
    and last: "\<forall>j<length fs. i < j \<longrightarrow> \<not> goodVideo (fs ! j)"
  shows "selectBestVideoFormat fs = Some i"
proof -
  have split: "fs = take i fs @ fs ! i # drop (Suc i) fs"
    using i by (rule id_take_nth_drop)
  have "\<forall>g\<in>set (drop (Suc i) fs). \<not> goodVideo g"
  proof
    fix g assume "g \<in> set (drop (Suc i) fs)"
    then obtain n where n: "n < length (drop (Suc i) fs)" and gn: "g = drop (Suc i) fs ! n"
      by (auto simp: in_set_conv_nth)
    then have "g = fs ! (Suc i + n)" and "Suc i + n < length fs" using i by auto
    then show "\<not> goodVideo g" using last by auto
  qed
  then have "videoLoop 0 None (take i fs @ fs ! i # drop (Suc i) fs) = Some (0 + length (take i fs))"
    using g by (rule videoLoop_last_good [rotated])
  then show ?thesis using split i by (simp add: selectBestVideoFormat_def min_def)
qed

lemma selectBestVideoFormat_all_tiny:
  assumes tiny: "\<forall>j<length fs. \<not> goodVideo (fs ! j)"
    and i: "i < length fs" and v: "isVideoMime (fs ! i)" and first: "\<forall>j<i. \<not> isVideoMime (fs ! j)"
  shows "selectBestVideoFormat fs = Some i"
proof -
  have "\<forall>f\<in>set fs. \<not> goodVideo f" using tiny by (auto simp: in_set_conv_nth)
  then have "selectBestVideoFormat fs = firstIndexFrom isVideoMime 0 fs"
    by (simp add: selectBestVideoFormat_def videoLoop_first)
  also have "\<dots> = Some i" using i v first by (simp add: firstIndexFrom_Some)
  finally show ?thesis .
qed

lemma selectBestVideoFormat_None:
  "selectBestVideoFormat fs = None \<longleftrightarrow> (\<forall>j<length fs. \<not> isVideoMime (fs ! j))"
  by (simp add: selectBestVideoFormat_def videoLoop_None all_set_conv_all_nth)

lemma last_index_exists:
  assumes "\<exists>j<length (fs::'a list). P (fs ! j)"
  shows "\<exists>m<length fs. P (fs ! m) \<and> (\<forall>j<length fs. m < j \<longrightarrow> \<not> P (fs ! j))"
proof -
  let ?S = "{j. j < length fs \<and> P (fs ! j)}"
  have fin: "finite ?S" by simp
  have ne: "?S \<noteq> {}" using assms by auto
  have mem: "Max ?S \<in> ?S" using fin ne by (rule Max_in)
  have "\<forall>j<length fs. Max ?S < j \<longrightarrow> \<not> P (fs ! j)"
  proof (intro allI impI notI)
    fix j assume "j < length fs" "Max ?S < j" "P (fs ! j)"
    then have "j \<in> ?S" by simp
    then have "j \<le> Max ?S" using fin by (rule Max_ge [rotated])
    then show False using \<open>Max ?S < j\<close> by simp
  qed
  then show ?thesis using mem by blast
qed

lemma first_index_exists:
  assumes "\<exists>j<length (fs::'a list). P (fs ! j)"
  shows "\<exists>m<length fs. P (fs ! m) \<and> (\<forall>j<m. \<not> P (fs ! j))"
proof -
  obtain j where j: "j < length fs \<and> P (fs ! j)" using assms by blast
  let ?m = "LEAST j. j < length fs \<and> P (fs ! j)"
  have "?m < length fs \<and> P (fs ! ?m)" using j by (rule LeastI)
  moreover have "\<forall>j<?m. \<not> P (fs ! j)"
  proof (intro allI impI notI)
    fix n assume n: "n < ?m" "P (fs ! n)"
    then have "n < length fs" using calculation by simp
    then have "?m \<le> n" using n by (intro Least_le) simp
    then show False using n by simp
  qed
  ultimately show ?thesis by blast
qed

lemma selectBestVideoFormat_Some:
  "selectBestVideoFormat fs = Some i \<longleftrightarrow>
     i < length fs \<and>
     (goodVideo (fs ! i) \<and> (\<forall>j<length fs. i < j \<longrightarrow> \<not> goodVideo (fs ! j))
      \<or> (\<forall>j<length fs. \<not> goodVideo (fs ! j)) \<and> isVideoMime (fs ! i)
          \<and> (\<forall>j<i. \<not> isVideoMime (fs ! j)))"
  (is "?L \<longleftrightarrow> ?R")
proof
  assume ?R
  then show ?L
    using selectBestVideoFormat_last_good [of i fs] selectBestVideoFormat_all_tiny [of fs i]
    by blast
next
  assume L: ?L
  show ?R
  proof (cases "\<exists>j<length fs. goodVideo (fs ! j)")
    case True
    then obtain m where m: "m < length fs" "goodVideo (fs ! m)"
      "\<forall>j<length fs. m < j \<longrightarrow> \<not> goodVideo (fs ! j)"
      using last_index_exists [of fs goodVideo] by blast
    then have "selectBestVideoFormat fs = Some m" by (rule selectBestVideoFormat_last_good)
    then have "i = m" using L by simp
    then show ?thesis using m by blast
  next
    case False
    then have tiny: "\<forall>j<length fs. \<not> goodVideo (fs ! j)" by blast
    have "\<exists>j<length fs. isVideoMime (fs ! j)"
      using L selectBestVideoFormat_None [of fs] by auto
    then obtain m where m: "m < length fs" "isVideoMime (fs ! m)" "\<forall>j<m. \<not> isVideoMime (fs ! j)"
      using first_index_exists [of fs isVideoMime] by blast
    with tiny have "selectBestVideoFormat fs = Some m" by (intro selectBestVideoFormat_all_tiny)
    then have "i = m" using L by simp
    then show ?thesis using m tiny by blast
  qed
qed

subsection \<open>Audio mode\<close>

lemma selectBestAudioFormat_Some:
  "selectBestAudioFormat fs = Some i \<longleftrightarrow>
     i < length fs \<and>
     (isAudioMime (fs ! i) \<and> (\<forall>j<i. \<not> isAudioMime (fs ! j))
      \<or> (\<forall>j<length fs. \<not> isAudioMime (fs ! j)) \<and> hasAudioChannels (fs ! i)
          \<and> (\<forall>j<i. \<not> hasAudioChannels (fs ! j)))"
proof (cases "firstIndexFrom isAudioMime 0 fs")
  case None
  then have no: "\<forall>j<length fs. \<not> isAudioMime (fs ! j)" by (simp add: firstIndexFrom_None)
  have "selectBestAudioFormat fs = firstIndexFrom hasAudioChannels 0 fs"
    using None by (simp add: selectBestAudioFormat_def split: option.splits)
  then show ?thesis using no by (auto simp: firstIndexFrom_Some)
next
  case (Some m)
  then have m: "m < length fs" "isAudioMime (fs ! m)" "\<forall>j<m. \<not> isAudioMime (fs ! j)"
    by (simp_all add: firstIndexFrom_Some)
  have sel: "selectBestAudioFormat fs = Some m"
    using Some by (simp add: selectBestAudioFormat_def)
  show ?thesis
  proof
    assume "selectBestAudioFormat fs = Some i"
    then have "i = m" using sel by simp
    then show "i < length fs \<and>
     (isAudioMime (fs ! i) \<and> (\<forall>j<i. \<not> isAudioMime (fs ! j))
      \<or> (\<forall>j<length fs. \<not> isAudioMime (fs ! j)) \<and> hasAudioChannels (fs ! i)
          \<and> (\<forall>j<i. \<not> hasAudioChannels (fs ! j)))"
      using m by blast
  next
    assume r: "i < length fs \<and>
     (isAudioMime (fs ! i) \<and> (\<forall>j<i. \<not> isAudioMime (fs ! j))
      \<or> (\<forall>j<length fs. \<not> isAudioMime (fs ! j)) \<and> hasAudioChannels (fs ! i)
          \<and> (\<forall>j<i. \<not> hasAudioChannels (fs ! j)))"
    then have a: "isAudioMime (fs ! i) \<and> (\<forall>j<i. \<not> isAudioMime (fs ! j))" using m by blast
    have "i = m"
    proof (rule ccontr)
      assume "i \<noteq> m"
      then consider "i < m" | "m < i" by linarith
      then show False using a m by cases auto
    qed
    then show "selectBestAudioFormat fs = Some i" using sel by simp
  qed
qed

lemma selectBestAudioFormat_None:
  "selectBestAudioFormat fs = None \<longleftrightarrow>
     (\<forall>j<length fs. \<not> isAudioMime (fs ! j) \<and> \<not> hasAudioChannels (fs ! j))"
proof -
  have "selectBestAudioFormat fs = None \<longleftrightarrow>
      firstIndexFrom isAudioMime 0 fs = None \<and> firstIndexFrom hasAudioChannels 0 fs = None"
    by (simp add: selectBestAudioFormat_def split: option.splits)
  then show ?thesis unfolding firstIndexFrom_None by blast
qed

text \<open>
  Claim C1. With download type \<^verbatim>\<open>"audio"\<close> the selector returns the first descriptor
  whose media type begins with \<^verbatim>\<open>audio/\<close>; if the sequence has none, the first
  descriptor with a positive audio-channel count; and nil exactly when no descriptor
  passes either test.
\<close>

theorem C1_audio_selection:
  "selectFormat ''audio'' fs = Inr (selectBestAudioFormat fs)
   \<and> (selectBestAudioFormat fs = Some i \<longleftrightarrow>
        i < length fs \<and>
        (isAudioMime (fs ! i) \<and> (\<forall>j<i. \<not> isAudioMime (fs ! j))
         \<or> (\<forall>j<length fs. \<not> isAudioMime (fs ! j)) \<and> hasAudioChannels (fs ! i)
             \<and> (\<forall>j<i. \<not> hasAudioChannels (fs ! j))))
   \<and> (selectBestAudioFormat fs = None \<longleftrightarrow>
        (\<forall>j<length fs. \<not> isAudioMime (fs ! j) \<and> \<not> hasAudioChannels (fs ! j)))"
  using selectBestAudioFormat_Some [of fs i] selectBestAudioFormat_None [of fs]
  by (simp add: selectFormat_def)

text \<open>
  On \<open>[{video/mp4, channels 2}, {audio/mp4, channels 2}]\<close> the audio/mp4 entry (index 1)
  is selected, although the video descriptor comes first and has audio channels.
\<close>

theorem C1_audio_selection_witness:
  "selectFormat ''audio'' audioExample = Inr (Some 1)
   \<and> MimeType (audioExample ! 1) = ''audio/mp4''
   \<and> hasAudioChannels (audioExample ! 0) \<and> \<not> isAudioMime (audioExample ! 0)"
proof -
  have h: "1 < length audioExample \<and> isAudioMime (audioExample ! 1)
      \<and> \<not> isAudioMime (audioExample ! 0) \<and> hasAudioChannels (audioExample ! 0)"
    by (simp add: audioExample_def isAudioMime_def hasAudioChannels_def HasPrefix_def)
  have "selectBestAudioFormat audioExample = Some 1"
    using C1_audio_selection [of audioExample 1] h by (simp add: less_Suc_eq)
  then show ?thesis
    using C1_audio_selection [of audioExample 1] h by (simp add: audioExample_def)
qed

subsection \<open>Video mode\<close>

text \<open>
  Claim C2, as the code has it. With download type \<^verbatim>\<open>"video"\<close> the selector returns
  the last video descriptor whose quality is not \<^verbatim>\<open>"tiny"\<close> when there is one;
  when every video descriptor is \<^verbatim>\<open>"tiny"\<close> it returns the first video descriptor
  (whether or not it is the only one); and nil exactly when no media type begins with
  \<^verbatim>\<open>video/\<close>.
\<close>

theorem C2_video_selection:
  "selectFormat ''video'' fs = Inr (selectBestVideoFormat fs)
   \<and> (selectBestVideoFormat fs = Some i \<longleftrightarrow>
        i < length fs \<and>
        (goodVideo (fs ! i) \<and> (\<forall>j<length fs. i < j \<longrightarrow> \<not> goodVideo (fs ! j))
         \<or> (\<forall>j<length fs. \<not> goodVideo (fs ! j)) \<and> isVideoMime (fs ! i)
             \<and> (\<forall>j<i. \<not> isVideoMime (fs ! j))))
   \<and> (selectBestVideoFormat fs = None \<longleftrightarrow> (\<forall>j<length fs. \<not> isVideoMime (fs ! j)))"
  using selectBestVideoFormat_Some [of fs i] selectBestVideoFormat_None [of fs]
  by (simp add: selectFormat_def)

text \<open>
  On \<open>[{video/mp4, tiny}, {video/webm, medium}, {video/mp4, tiny}]\<close> the webm entry
  (index 1) is selected, and on \<open>[{video/mp4, tiny}]\<close> that single entry.
\<close>

theorem C2_video_selection_witness:
  "selectFormat ''video'' videoExample = Inr (Some 1)
   \<and> MimeType (videoExample ! 1) = ''video/webm'' \<and> Quality (videoExample ! 1) = ''medium''
   \<and> selectFormat ''video'' soleTinyExample = Inr (Some 0)"
proof -
  have h: "1 < length videoExample \<and> goodVideo (videoExample ! 1)
      \<and> \<not> goodVideo (videoExample ! 2)"
    by (simp add: videoExample_def goodVideo_def isVideoMime_def HasPrefix_def)
  have "\<forall>j<length videoExample. 1 < j \<longrightarrow> \<not> goodVideo (videoExample ! j)"
  proof (intro allI impI)
    fix j assume "j < length videoExample" "1 < j"
    then have "j = 2" by (simp add: videoExample_def)
    then show "\<not> goodVideo (videoExample ! j)" using h by simp
  qed
  then have a: "selectBestVideoFormat videoExample = Some 1"
    using C2_video_selection [of videoExample 1] h by blast
  have "0 < length soleTinyExample \<and> isVideoMime (soleTinyExample ! 0)
      \<and> (\<forall>j<length soleTinyExample. \<not> goodVideo (soleTinyExample ! j))"
    by (simp add: soleTinyExample_def goodVideo_def isVideoMime_def HasPrefix_def)
  then have b: "selectBestVideoFormat soleTinyExample = Some 0"
    using C2_video_selection [of soleTinyExample 0] by simp
  show ?thesis
    using a b C2_video_selection [of videoExample 1] C2_video_selection [of soleTinyExample 0]
    by (simp add: videoExample_def)
qed

text \<open>
  The claim as written fails: on two \<^verbatim>\<open>"tiny"\<close> video descriptors the selector
  returns the first, a \<^verbatim>\<open>"tiny"\<close> descriptor that is not the only video descriptor
  of the sequence.
\<close>

theorem C2_tiny_fallback_counterexample:
  "selectFormat ''video'' twoTinyExample = Inr (Some 0)
   \<and> Quality (twoTinyExample ! 0) = ''tiny''
   \<and> isVideoMime (twoTinyExample ! 1) \<and> length twoTinyExample = 2"
  by (simp add: selectFormat_def selectBestVideoFormat_def twoTinyExample_def
      isVideoMime_def HasPrefix_def)

subsection \<open>Totality of the selector\<close>

text \<open>
  Claim C9, as the code has it. For the download types \<^verbatim>\<open>"audio"\<close> and \<^verbatim>\<open>"video"\<close>
  the selector returns a descriptor of the sequence or nil on every sequence, the
  empty one included; for any other download type it returns the first descriptor of
  a non-empty sequence.
\<close>

theorem C9_select_total:
  "(downloadType = ''audio'' \<or> downloadType = ''video''
      \<longrightarrow> (\<exists>r. selectFormat downloadType fs = Inr r))
   \<and> (downloadType \<noteq> ''audio'' \<and> downloadType \<noteq> ''video'' \<and> fs \<noteq> []
      \<longrightarrow> selectFormat downloadType fs = Inr (Some 0))
   \<and> (selectFormat downloadType fs = Inr (Some i) \<longrightarrow> i < length fs)"
proof (intro conjI impI)
  assume "downloadType = ''audio'' \<or> downloadType = ''video''"
  then show "\<exists>r. selectFormat downloadType fs = Inr r"
    by (auto simp: selectFormat_def)
next
  assume "downloadType \<noteq> ''audio'' \<and> downloadType \<noteq> ''video'' \<and> fs \<noteq> []"
  then show "selectFormat downloadType fs = Inr (Some 0)"
    by (cases fs) (simp_all add: selectFormat_def)
next
  assume "selectFormat downloadType fs = Inr (Some i)"
  then show "i < length fs"
    using selectBestAudioFormat_Some [of fs i] selectBestVideoFormat_Some [of fs i]
    by (cases fs) (auto simp: selectFormat_def split: if_splits)
qed

theorem C9_select_total_witness:
  "selectFormat ''audio'' [] = Inr None \<and> selectFormat ''video'' [] = Inr None
   \<and> selectFormat ''other'' soleTinyExample = Inr (Some 0)
   \<and> (0::nat) < length soleTinyExample"
proof -
  have ne: "''other'' \<noteq> ''audio'' \<and> ''other'' \<noteq> ''video'' \<and> soleTinyExample \<noteq> []"
    by (simp add: soleTinyExample_def)
  have a: "selectFormat ''other'' soleTinyExample = Inr (Some 0)"
    using C9_select_total [of "''other''" soleTinyExample 0] ne by blast
  then have "(0::nat) < length soleTinyExample"
    using C9_select_total [of "''other''" soleTinyExample 0] by blast
  then show ?thesis using a
    by (simp add: selectFormat_def selectBestAudioFormat_def selectBestVideoFormat_def)
qed

text \<open>
  The claim as written fails: with a download type other than \<^verbatim>\<open>"audio"\<close> and
  \<^verbatim>\<open>"video"\<close>, the empty sequence makes \<^verbatim>\<open>&video.Formats[0]\<close> panic.
\<close>

theorem C9_empty_default_counterexample:
  "selectFormat ''other'' [] = Inl IndexOutOfRange"
  by (simp add: selectFormat_def)

section \<open>Name sanitizer (main.go, sanitizeFileName)\<close>

subsection \<open>The library functions it calls\<close>

text \<open>
  A Go \<^verbatim>\<open>string\<close> is a sequence of bytes; \<^verbatim>\<open>len\<close>, indexing and slicing count bytes.
  \<open>byte\<close> reads a byte as a number.
\<close>

definition byte :: "char \<Rightarrow> nat" where
  "byte c = of_char c"

text \<open>\<^verbatim>\<open>utf8.RuneError\<close> and \<^verbatim>\<open>utf8.RuneSelf\<close>; a rune is its code point.\<close>

definition RuneError :: nat where
  "RuneError = 0xFFFD"

definition RuneSelf :: nat where
  "RuneSelf = 0x80"

text \<open>
  The tables \<^verbatim>\<open>first\<close> and \<^verbatim>\<open>acceptRanges\<close> of package \<^verbatim>\<open>unicode/utf8\<close>, for a
  leading byte that starts a sequence of two to four bytes: the length of the
  sequence and the range accepted for its second byte. \<open>None\<close> stands for the
  entries \<^verbatim>\<open>as\<close> (ASCII) and \<^verbatim>\<open>xx\<close> (invalid).
\<close>

definition utf8First :: "nat \<Rightarrow> (nat \<times> nat \<times> nat) option" where
  "utf8First b =
     (if 0xC2 \<le> b \<and> b \<le> 0xDF then Some (2, 0x80, 0xBF)
      else if b = 0xE0 then Some (3, 0xA0, 0xBF)
      else if b = 0xED then Some (3, 0x80, 0x9F)
      else if 0xE1 \<le> b \<and> b \<le> 0xEF then Some (3, 0x80, 0xBF)
      else if b = 0xF0 then Some (4, 0x90, 0xBF)
      else if 0xF1 \<le> b \<and> b \<le> 0xF3 then Some (4, 0x80, 0xBF)
      else if b = 0xF4 then Some (4, 0x80, 0x8F)
      else None)"

text \<open>
  \<^verbatim>\<open>utf8.DecodeRuneInString\<close>: the first rune of \<open>s\<close> and its width in bytes;
  \<open>(RuneError, 0)\<close> on the empty string and \<open>(RuneError, 1)\<close> on an invalid
  encoding. The masks \<^verbatim>\<open>s0&mask2\<close>, \<^verbatim>\<open>s0&mask3\<close>, \<^verbatim>\<open>s0&mask4\<close> and \<^verbatim>\<open>s&maskx\<close>
  are the remainders modulo 32, 16, 8 and 64; the shifted parts do not overlap, so
  their bitwise or is their sum.
\<close>

definition DecodeRuneInString :: "string \<Rightarrow> nat \<times> nat" where
  "DecodeRuneInString s =
     (if length s < 1 then (RuneError, 0)
      else
        let s0 = byte (s ! 0) in
        if s0 < RuneSelf then (s0, 1)
        else
          (case utf8First s0 of
             None \<Rightarrow> (RuneError, 1)
           | Some (sz, lo, hi) \<Rightarrow>
               if length s < sz then (RuneError, 1)
               else
                 let s1 = byte (s ! 1) in
                 if s1 < lo \<or> hi < s1 then (RuneError, 1)
                 else if sz \<le> 2 then ((s0 mod 32) * 64 + s1 mod 64, 2)
                 else
                   let s2 = byte (s ! 2) in
                   if s2 < 0x80 \<or> 0xBF < s2 then (RuneError, 1)
                   else if sz \<le> 3 then
                     ((s0 mod 16) * 4096 + (s1 mod 64) * 64 + s2 mod 64, 3)
                   else
                     let s3 = byte (s ! 3) in
                     if s3 < 0x80 \<or> 0xBF < s3 then (RuneError, 1)
                     else
                       ((s0 mod 8) * 262144 + (s1 mod 64) * 4096 + (s2 mod 64) * 64
                          + s3 mod 64, 4)))"

text \<open>\<^verbatim>\<open>utf8.RuneStart(b)\<close>: \<^verbatim>\<open>b&0xC0 != 0x80\<close>, the byte is not a continuation byte.\<close>

definition RuneStart :: "nat \<Rightarrow> bool" where
  "RuneStart b = (\<not> (0x80 \<le> b \<and> b \<le> 0xBF))"

text \<open>
  The backward scan of \<^verbatim>\<open>utf8.DecodeLastRuneInString\<close>:
  \<^verbatim>\<open>for start--; start >= lim; start-- { if RuneStart(s[start]) { break } }\<close>,
  entered with \<open>start\<close> already decremented.
\<close>

function findRuneStart :: "string \<Rightarrow> int \<Rightarrow> int \<Rightarrow> int" where
  "findRuneStart s start lim =
     (if start \<ge> lim then
        (if RuneStart (byte (s ! nat start)) then start
         else findRuneStart s (start - 1) lim)
      else start)"
  by pat_completeness auto
termination
  by (relation "measure (\<lambda>(s, start, lim). nat (start - lim + 1))") auto

declare findRuneStart.simps [simp del]

definition DecodeLastRuneInString :: "string \<Rightarrow> nat \<times> nat" where
  "DecodeLastRuneInString s =
     (let n = int (length s) in
      if n = 0 then (RuneError, 0)
      else
        let r = byte (s ! nat (n - 1)) in
        if r < RuneSelf then (r, 1)
        else
          let lim = (if n - 4 < 0 then 0 else n - 4);
              start = findRuneStart s (n - 1 - 1) lim;
              start = (if start < 0 then 0 else start);
              (r, size) = DecodeRuneInString (drop (nat start) s)
          in if start + int size \<noteq> n then (RuneError, 1) else (r, size))"

text \<open>
  \<^verbatim>\<open>unicode.IsSpace\<close>: in Latin-1 the characters tab, line feed, vertical tab, form
  feed, carriage return, space, U+0085 and U+00A0; beyond it the White_Space table.
\<close>

definition IsSpace :: "nat \<Rightarrow> bool" where
  "IsSpace r =
     (if r \<le> 0xFF then
        r = 9 \<or> r = 10 \<or> r = 11 \<or> r = 12 \<or> r = 13 \<or> r = 32 \<or> r = 0x85 \<or> r = 0xA0
      else
        r = 0x1680 \<or> (0x2000 \<le> r \<and> r \<le> 0x200A) \<or> r = 0x2028 \<or> r = 0x2029
        \<or> r = 0x202F \<or> r = 0x205F \<or> r = 0x3000)"

text \<open>The table \<^verbatim>\<open>asciiSpace\<close> of package \<^verbatim>\<open>strings\<close>.\<close>

definition asciiSpace :: "nat \<Rightarrow> bool" where
  "asciiSpace c = (c = 9 \<or> c = 10 \<or> c = 11 \<or> c = 12 \<or> c = 13 \<or> c = 32)"

lemma utf8First_Some:
  "utf8First b = Some (sz, lo, hi) \<Longrightarrow>
     (sz = 2 \<or> sz = 3 \<or> sz = 4) \<and> 0x80 \<le> lo \<and> hi \<le> 0xBF \<and> 0xC2 \<le> b"
  by (auto simp: utf8First_def split: if_splits)

text \<open>The decoder, read off for each kind of leading byte.\<close>

lemma DecodeRuneInString_ascii:
  "s \<noteq> [] \<Longrightarrow> byte (s ! 0) < RuneSelf \<Longrightarrow> DecodeRuneInString s = (byte (s ! 0), 1)"
  by (cases s) (simp_all add: DecodeRuneInString_def)

lemma DecodeRuneInString_no_first:
  "s \<noteq> [] \<Longrightarrow> \<not> byte (s ! 0) < RuneSelf \<Longrightarrow> utf8First (byte (s ! 0)) = None
     \<Longrightarrow> DecodeRuneInString s = (RuneError, 1)"
  by (cases s) (simp_all add: DecodeRuneInString_def)

lemma DecodeRuneInString_two:
  "s \<noteq> [] \<Longrightarrow> \<not> byte (s ! 0) < RuneSelf \<Longrightarrow> utf8First (byte (s ! 0)) = Some (2, lo, hi)
     \<Longrightarrow> DecodeRuneInString s =
        (if length s < 2 \<or> byte (s ! 1) < lo \<or> hi < byte (s ! 1) then (RuneError, 1)
         else ((byte (s ! 0) mod 32) * 64 + byte (s ! 1) mod 64, 2))"
  by (cases s) (simp_all add: DecodeRuneInString_def Let_def)

lemma DecodeRuneInString_three:
  "s \<noteq> [] \<Longrightarrow> \<not> byte (s ! 0) < RuneSelf \<Longrightarrow> utf8First (byte (s ! 0)) = Some (3, lo, hi)
     \<Longrightarrow> DecodeRuneInString s =
        (if length s < 3 \<or> byte (s ! 1) < lo \<or> hi < byte (s ! 1)
            \<or> byte (s ! 2) < 0x80 \<or> 0xBF < byte (s ! 2) then (RuneError, 1)
         else ((byte (s ! 0) mod 16) * 4096 + (byte (s ! 1) mod 64) * 64
                 + byte (s ! 2) mod 64, 3))"
  by (cases s) (simp_all add: DecodeRuneInString_def Let_def)

lemma DecodeRuneInString_four:
  "s \<noteq> [] \<Longrightarrow> \<not> byte (s ! 0) < RuneSelf \<Longrightarrow> utf8First (byte (s ! 0)) = Some (4, lo, hi)
     \<Longrightarrow> DecodeRuneInString s =
        (if length s < 4 \<or> byte (s ! 1) < lo \<or> hi < byte (s ! 1)
            \<or> byte (s ! 2) < 0x80 \<or> 0xBF < byte (s ! 2)
            \<or> byte (s ! 3) < 0x80 \<or> 0xBF < byte (s ! 3) then (RuneError, 1)
         else ((byte (s ! 0) mod 8) * 262144 + (byte (s ! 1) mod 64) * 4096
                 + (byte (s ! 2) mod 64) * 64 + byte (s ! 3) mod 64, 4))"
  by (cases s) (simp_all add: DecodeRuneInString_def Let_def)

text \<open>
  The cases of a decoding: the kind of the leading byte, with the equation that
  holds for it.
\<close>

lemma DecodeRuneInString_cases:
  assumes ne: "s \<noteq> []"
  obtains
    (ascii) "byte (s ! 0) < RuneSelf" "DecodeRuneInString s = (byte (s ! 0), 1)"
  | (invalid) "\<not> byte (s ! 0) < RuneSelf" "utf8First (byte (s ! 0)) = None"
      "DecodeRuneInString s = (RuneError, 1)"
  | (two) lo hi where "\<not> byte (s ! 0) < RuneSelf" "utf8First (byte (s ! 0)) = Some (2, lo, hi)"
      "0x80 \<le> lo" "hi \<le> 0xBF"
  | (three) lo hi where "\<not> byte (s ! 0) < RuneSelf" "utf8First (byte (s ! 0)) = Some (3, lo, hi)"
      "0x80 \<le> lo" "hi \<le> 0xBF"
  | (four) lo hi where "\<not> byte (s ! 0) < RuneSelf" "utf8First (byte (s ! 0)) = Some (4, lo, hi)"
      "0x80 \<le> lo" "hi \<le> 0xBF"
proof (cases "byte (s ! 0) < RuneSelf")
  case True
  then show ?thesis using ne ascii DecodeRuneInString_ascii by blast
next
  case False
  show ?thesis
  proof (cases "utf8First (byte (s ! 0))")
    case None
    then show ?thesis using False ne invalid DecodeRuneInString_no_first by blast
  next
    case (Some u)
    obtain sz lo hi where u: "u = (sz, lo, hi)" by (cases u)
    have "(sz = 2 \<or> sz = 3 \<or> sz = 4) \<and> 0x80 \<le> lo \<and> hi \<le> 0xBF"
      using Some utf8First_Some unfolding u by blast
    then show ?thesis using False Some two three four unfolding u by blast
  qed
qed

lemma DecodeRuneInString_size:
  assumes ne: "s \<noteq> []"
  shows "1 \<le> snd (DecodeRuneInString s) \<and> snd (DecodeRuneInString s) \<le> length s
    \<and> snd (DecodeRuneInString s) \<le> 4"
proof -
  have l: "1 \<le> length s" using ne by (cases s) simp_all
  from ne show ?thesis
  proof (cases rule: DecodeRuneInString_cases)
    case ascii
    then show ?thesis using l by simp
  next
    case invalid
    then show ?thesis using l by simp
  next
    case (two lo hi)
    then show ?thesis using l ne by (simp add: DecodeRuneInString_two)
  next
    case (three lo hi)
    then show ?thesis using l ne by (simp add: DecodeRuneInString_three)
  next
    case (four lo hi)
    then show ?thesis using l ne by (simp add: DecodeRuneInString_four)
  qed
qed

lemma not_IsSpace_RuneError: "\<not> IsSpace RuneError"
  by (simp add: IsSpace_def RuneError_def)

lemma DecodeRuneInString_append:
  assumes ne: "s \<noteq> []" and ok: "DecodeRuneInString s \<noteq> (RuneError, 1)"
  shows "DecodeRuneInString (s @ t) = DecodeRuneInString s"
proof -
  have hd: "(s @ t) ! 0 = s ! 0" using ne by (simp add: nth_append)
  have ne': "s @ t \<noteq> []" using ne by simp
  from ne show ?thesis
  proof (cases rule: DecodeRuneInString_cases)
    case ascii
    then show ?thesis using ne' hd by (simp add: DecodeRuneInString_ascii)
  next
    case invalid
    then show ?thesis using ok by simp
  next
    case (two lo hi)
    have e: "DecodeRuneInString s =
        (if length s < 2 \<or> byte (s ! 1) < lo \<or> hi < byte (s ! 1) then (RuneError, 1)
         else ((byte (s ! 0) mod 32) * 64 + byte (s ! 1) mod 64, 2))"
      using ne two(1,2) by (rule DecodeRuneInString_two)
    then have c: "\<not> (length s < 2 \<or> byte (s ! 1) < lo \<or> hi < byte (s ! 1))"
      using ok by (auto split: if_splits)
    have "DecodeRuneInString (s @ t) =
        (if length (s @ t) < 2 \<or> byte ((s @ t) ! 1) < lo \<or> hi < byte ((s @ t) ! 1)
         then (RuneError, 1)
         else ((byte ((s @ t) ! 0) mod 32) * 64 + byte ((s @ t) ! 1) mod 64, 2))"
      using ne' two(1,2) unfolding hd [symmetric] by (rule DecodeRuneInString_two)
    then show ?thesis using c e hd by (simp add: nth_append)
  next
    case (three lo hi)
    have e: "DecodeRuneInString s =
        (if length s < 3 \<or> byte (s ! 1) < lo \<or> hi < byte (s ! 1)
            \<or> byte (s ! 2) < 0x80 \<or> 0xBF < byte (s ! 2) then (RuneError, 1)
         else ((byte (s ! 0) mod 16) * 4096 + (byte (s ! 1) mod 64) * 64
                 + byte (s ! 2) mod 64, 3))"
      using ne three(1,2) by (rule DecodeRuneInString_three)
    then have c: "\<not> (length s < 3 \<or> byte (s ! 1) < lo \<or> hi < byte (s ! 1)
            \<or> byte (s ! 2) < 0x80 \<or> 0xBF < byte (s ! 2))"
      using ok by (auto split: if_splits)
    have "DecodeRuneInString (s @ t) =
        (if length (s @ t) < 3 \<or> byte ((s @ t) ! 1) < lo \<or> hi < byte ((s @ t) ! 1)
            \<or> byte ((s @ t) ! 2) < 0x80 \<or> 0xBF < byte ((s @ t) ! 2) then (RuneError, 1)
         else ((byte ((s @ t) ! 0) mod 16) * 4096 + (byte ((s @ t) ! 1) mod 64) * 64
                 + byte ((s @ t) ! 2) mod 64, 3))"
      using ne' three(1,2) unfolding hd [symmetric] by (rule DecodeRuneInString_three)
    then show ?thesis using c e hd by (simp add: nth_append)
  next
    case (four lo hi)
    have e: "DecodeRuneInString s =
        (if length s < 4 \<or> byte (s ! 1) < lo \<or> hi < byte (s ! 1)
            \<or> byte (s ! 2) < 0x80 \<or> 0xBF < byte (s ! 2)
            \<or> byte (s ! 3) < 0x80 \<or> 0xBF < byte (s ! 3) then (RuneError, 1)
         else ((byte (s ! 0) mod 8) * 262144 + (byte (s ! 1) mod 64) * 4096
                 + (byte (s ! 2) mod 64) * 64 + byte (s ! 3) mod 64, 4))"
      using ne four(1,2) by (rule DecodeRuneInString_four)
    then have c: "\<not> (length s < 4 \<or> byte (s ! 1) < lo \<or> hi < byte (s ! 1)
            \<or> byte (s ! 2) < 0x80 \<or> 0xBF < byte (s ! 2)
            \<or> byte (s ! 3) < 0x80 \<or> 0xBF < byte (s ! 3))"
      using ok by (auto split: if_splits)
    have "DecodeRuneInString (s @ t) =
        (if length (s @ t) < 4 \<or> byte ((s @ t) ! 1) < lo \<or> hi < byte ((s @ t) ! 1)
            \<or> byte ((s @ t) ! 2) < 0x80 \<or> 0xBF < byte ((s @ t) ! 2)
            \<or> byte ((s @ t) ! 3) < 0x80 \<or> 0xBF < byte ((s @ t) ! 3) then (RuneError, 1)
         else ((byte ((s @ t) ! 0) mod 8) * 262144 + (byte ((s @ t) ! 1) mod 64) * 4096
                 + (byte ((s @ t) ! 2) mod 64) * 64 + byte ((s @ t) ! 3) mod 64, 4))"
      using ne' four(1,2) unfolding hd [symmetric] by (rule DecodeRuneInString_four)
    then show ?thesis using c e hd by (simp add: nth_append)
  qed
qed

lemma DecodeRuneInString_RuneStart:
  assumes ne: "s \<noteq> []" and ok: "DecodeRuneInString s \<noteq> (RuneError, 1)"
  shows "RuneStart (byte (s ! 0))"
proof (cases "byte (s ! 0) < RuneSelf")
  case True
  then show ?thesis by (simp add: RuneStart_def RuneSelf_def)
next
  case False
  show ?thesis
  proof (cases "utf8First (byte (s ! 0))")
    case None
    then show ?thesis using False ok ne DecodeRuneInString_no_first by blast
  next
    case (Some u)
    obtain sz lo hi where u: "u = (sz, lo, hi)" by (cases u)
    have "0xC2 \<le> byte (s ! 0)" using Some utf8First_Some unfolding u by blast
    then show ?thesis by (simp add: RuneStart_def)
  qed
qed

lemma DecodeRuneInString_invalid:
  assumes ne: "s \<noteq> []" and hi: "RuneSelf \<le> byte (s ! 0)"
    and nxt: "length s = 1 \<or> RuneStart (byte (s ! 1))"
  shows "DecodeRuneInString s = (RuneError, 1)"
proof -
  have out: "0x80 \<le> lo \<Longrightarrow> hi \<le> 0xBF \<Longrightarrow>
      length s < 2 \<or> byte (s ! 1) < lo \<or> hi < byte (s ! 1)" for lo hi :: nat
    using nxt by (auto simp: RuneStart_def)
  from ne show ?thesis
  proof (cases rule: DecodeRuneInString_cases)
    case ascii
    then show ?thesis using hi by simp
  next
    case invalid
    then show ?thesis by simp
  next
    case (two lo hi)
    then show ?thesis using ne out [of lo hi] by (simp add: DecodeRuneInString_two)
  next
    case (three lo hi)
    then show ?thesis using ne out [of lo hi] by (auto simp: DecodeRuneInString_three)
  next
    case (four lo hi)
    then show ?thesis using ne out [of lo hi] by (auto simp: DecodeRuneInString_four)
  qed
qed

lemma DecodeRuneInString_wide:
  assumes "2 \<le> snd (DecodeRuneInString s)"
  shows "RuneSelf \<le> byte (s ! 0)"
proof (rule ccontr)
  assume "\<not> RuneSelf \<le> byte (s ! 0)"
  then have "byte (s ! 0) < RuneSelf" by simp
  then have "snd (DecodeRuneInString s) \<le> 1"
    by (cases s) (simp_all add: DecodeRuneInString_def)
  then show False using assms by simp
qed


subsection \<open>Decoding the last rune\<close>

lemma findRuneStart_bounds:
  "lim - 1 \<le> start \<Longrightarrow> lim - 1 \<le> findRuneStart s start lim \<and> findRuneStart s start lim \<le> start"
proof (induction s start lim rule: findRuneStart.induct)
  case (1 s start lim)
  show ?case
  proof (cases "start \<ge> lim \<and> \<not> RuneStart (byte (s ! nat start))")
    case True
    then have "lim - 1 \<le> findRuneStart s (start - 1) lim \<and> findRuneStart s (start - 1) lim \<le> start - 1"
      using 1 by simp
    then show ?thesis using True by (subst (1 2) findRuneStart.simps) simp
  next
    case False
    then show ?thesis using 1(2) by (subst (1 2) findRuneStart.simps) auto
  qed
qed

lemma DecodeLastRuneInString_forward:
  assumes ne: "s \<noteq> []"
  shows "1 \<le> snd (DecodeLastRuneInString s) \<and> snd (DecodeLastRuneInString s) \<le> length s
    \<and> DecodeRuneInString (drop (length s - snd (DecodeLastRuneInString s)) s)
        = DecodeLastRuneInString s"
proof -
  have l: "1 \<le> length s" using ne by (cases s) simp_all
  have lastbyte: "drop (length s - 1) s = [s ! (length s - 1)]"
    using l by (metis Suc_diff_1 Suc_le_lessD append_butlast_last_id append_eq_conv_conj
        last_conv_nth length_butlast ne One_nat_def)
  show ?thesis
  proof (cases "byte (s ! (length s - 1)) < RuneSelf")
    case True
    then have "DecodeLastRuneInString s = (byte (s ! (length s - 1)), 1)"
      using l ne by (simp add: DecodeLastRuneInString_def Let_def nat_diff_distrib')
    then show ?thesis using l True lastbyte by (simp add: DecodeRuneInString_ascii)
  next
    case False
    have single: "DecodeRuneInString (drop (length s - 1) s) = (RuneError, 1)"
      unfolding lastbyte using False by (intro DecodeRuneInString_invalid) simp_all
    define n where "n = int (length s)"
    define lim where "lim = (if n - 4 < 0 then 0 else n - 4)"
    define st0 where "st0 = findRuneStart s (n - 1 - 1) lim"
    define st where "st = (if st0 < 0 then 0 else st0)"
    have "lim - 1 \<le> n - 1 - 1" using l by (simp add: lim_def n_def)
    then have "lim - 1 \<le> st0 \<and> st0 \<le> n - 1 - 1"
      unfolding st0_def by (rule findRuneStart_bounds)
    then have st: "0 \<le> st \<and> st < n" using l by (auto simp: st_def n_def)
    have e: "DecodeLastRuneInString s =
        (if st + int (snd (DecodeRuneInString (drop (nat st) s))) \<noteq> n then (RuneError, 1)
         else DecodeRuneInString (drop (nat st) s))"
      using False l ne
      by (simp add: DecodeLastRuneInString_def Let_def n_def lim_def st0_def st_def
          nat_diff_distrib' split: prod.splits)
    show ?thesis
    proof (cases "st + int (snd (DecodeRuneInString (drop (nat st) s))) = n")
      case True
      then have "length s - snd (DecodeRuneInString (drop (nat st) s)) = nat st"
        using st by (simp add: n_def)
      moreover have "nat st < length s" using st unfolding n_def by linarith
      then have "drop (nat st) s \<noteq> []" by simp
      ultimately show ?thesis
        using e True \<open>drop (nat st) s \<noteq> []\<close> DecodeRuneInString_size [of "drop (nat st) s"] st by (simp add: n_def)
    next
      case False
      then show ?thesis using e single l by simp
    qed
  qed
qed


subsection \<open>Trimming\<close>

text \<open>
  \<^verbatim>\<open>strings.indexFunc(s, f, truth)\<close>: \<^verbatim>\<open>for i, r := range s\<close> decodes one rune after the
  other, an invalid byte as \<open>RuneError\<close> of width 1. \<open>i\<close> is the offset of the rest
  \<open>s\<close>; \<open>None\<close> is the result \<open>-1\<close>.
\<close>

function indexFunc :: "(nat \<Rightarrow> bool) \<Rightarrow> bool \<Rightarrow> nat \<Rightarrow> string \<Rightarrow> nat option" where
  "indexFunc f truth i s =
     (if s = [] then None
      else if f (fst (DecodeRuneInString s)) = truth then Some i
      else indexFunc f truth (i + snd (DecodeRuneInString s))
             (drop (snd (DecodeRuneInString s)) s))"
  by pat_completeness auto
termination
proof (relation "measure (\<lambda>(f, truth, i, s). length s)")
  show "wf (measure (\<lambda>(f, truth, i, s). length s))" by simp
next
  fix f :: "nat \<Rightarrow> bool" and truth :: bool and i :: nat and s :: string
  assume "s \<noteq> []"
  then have "0 < snd (DecodeRuneInString s)" and "0 < length s"
    using DecodeRuneInString_size [of s] by simp_all
  then have "length s - snd (DecodeRuneInString s) < length s" by (rule diff_less)
  then show "((f, truth, i + snd (DecodeRuneInString s), drop (snd (DecodeRuneInString s)) s),
      f, truth, i, s) \<in> measure (\<lambda>(f, truth, i, s). length s)"
    by simp
qed

declare indexFunc.simps [simp del]

text \<open>
  \<^verbatim>\<open>strings.lastIndexFunc(s, f, truth)\<close>: the loop variable \<open>i\<close> is the length of the
  prefix \<^verbatim>\<open>s[0:i]\<close> still to scan, here the argument itself.
\<close>

function lastIndexFunc :: "(nat \<Rightarrow> bool) \<Rightarrow> bool \<Rightarrow> string \<Rightarrow> nat option" where
  "lastIndexFunc f truth s =
     (if length s > 0 then
        (if f (fst (DecodeLastRuneInString s)) = truth
         then Some (length s - snd (DecodeLastRuneInString s))
         else lastIndexFunc f truth (take (length s - snd (DecodeLastRuneInString s)) s))
      else None)"
  by pat_completeness auto
termination
proof (relation "measure (\<lambda>(f, truth, s). length s)")
  show "wf (measure (\<lambda>(f, truth, s). length s))" by simp
next
  fix f :: "nat \<Rightarrow> bool" and truth :: bool and s :: string
  assume "0 < length s"
  then have "1 \<le> snd (DecodeLastRuneInString s)" and "1 \<le> length s"
    using DecodeLastRuneInString_forward [of s] by auto
  then show "((f, truth, take (length s - snd (DecodeLastRuneInString s)) s), f, truth, s)
      \<in> measure (\<lambda>(f, truth, s). length s)"
    by simp
qed

declare lastIndexFunc.simps [simp del]

text \<open>\<^verbatim>\<open>strings.TrimLeftFunc\<close>, \<^verbatim>\<open>strings.TrimRightFunc\<close> and \<^verbatim>\<open>strings.TrimFunc\<close>.\<close>

definition TrimLeftFunc :: "string \<Rightarrow> (nat \<Rightarrow> bool) \<Rightarrow> string" where
  "TrimLeftFunc s f = (case indexFunc f False 0 s of None \<Rightarrow> [] | Some i \<Rightarrow> drop i s)"

definition TrimRightFunc :: "string \<Rightarrow> (nat \<Rightarrow> bool) \<Rightarrow> string" where
  "TrimRightFunc s f =
     (case lastIndexFunc f False s of
        None \<Rightarrow> take 0 s
      | Some i \<Rightarrow>
          if RuneSelf \<le> byte (s ! i)
          then take (i + snd (DecodeRuneInString (drop i s))) s
          else take (i + 1) s)"

definition TrimFunc :: "string \<Rightarrow> (nat \<Rightarrow> bool) \<Rightarrow> string" where
  "TrimFunc s f = TrimRightFunc (TrimLeftFunc s f) f"

text \<open>
  \<^verbatim>\<open>strings.TrimSpace\<close>. The first loop advances \<open>start\<close> over ASCII white space and
  hands the rest to \<open>TrimFunc\<close> at the first byte that is not ASCII; the second loop
  moves \<open>stop\<close> back likewise and hands \<^verbatim>\<open>s[start:stop]\<close> to \<open>TrimRightFunc\<close>. The
  argument of each function below is the slice the loop still holds.
\<close>

function trimSpaceStop :: "string \<Rightarrow> string" where
  "trimSpaceStop s =
     (if s = [] then []
      else if RuneSelf \<le> byte (last s) then TrimRightFunc s IsSpace
      else if asciiSpace (byte (last s)) then trimSpaceStop (butlast s)
      else s)"
  by pat_completeness auto
termination
  by (relation "measure length") (auto simp: less_eq_Suc_le [symmetric] length_greater_0_conv)

declare trimSpaceStop.simps [simp del]

fun trimSpaceStart :: "string \<Rightarrow> string" where
  "trimSpaceStart [] = trimSpaceStop []"
| "trimSpaceStart (c # cs) =
     (if RuneSelf \<le> byte c then TrimFunc (c # cs) IsSpace
      else if asciiSpace (byte c) then trimSpaceStart cs
      else trimSpaceStop (c # cs))"

definition TrimSpace :: "string \<Rightarrow> string" where
  "TrimSpace s = trimSpaceStart s"

text \<open>
  \<^verbatim>\<open>strings.ReplaceAll(s, old, new)\<close> for a non-empty \<open>old\<close>, the only use main.go
  makes of it: the occurrences of \<open>old\<close> are replaced from left to right, without
  overlap.
\<close>

function ReplaceAll :: "string \<Rightarrow> string \<Rightarrow> string \<Rightarrow> string" where
  "ReplaceAll s old new =
     (if s = [] \<or> old = [] then s
      else if take (length old) s = old
        then new @ ReplaceAll (drop (length old) s) old new
        else hd s # ReplaceAll (tl s) old new)"
  by pat_completeness auto
termination
proof (relation "measure (\<lambda>(s, old, new). length s)")
  show "wf (measure (\<lambda>(s, old, new). length s))" by simp
next
  fix s old new :: string
  assume "\<not> (s = [] \<or> old = [])"
  then have "0 < length old" and "0 < length s" by simp_all
  then have "length s - length old < length s" by (rule diff_less)
  then show "((drop (length old) s, old, new), s, old, new)
      \<in> measure (\<lambda>(s, old, new). length s)"
    by simp
next
  fix s old new :: string
  assume "\<not> (s = [] \<or> old = [])"
  then show "((tl s, old, new), s, old, new) \<in> measure (\<lambda>(s, old, new). length s)"
    by (cases s) simp_all
qed

declare ReplaceAll.simps [simp del]

subsection \<open>The sanitizer\<close>

text \<open>The backslash is byte \<open>0x5C\<close> and the double quote byte \<open>0x22\<close>.\<close>

definition invalidChars :: "string list" where
  "invalidChars = [[CHR 0x5C], ''/'', '':'', ''*'', ''?'', [CHR 0x22], ''<'', ''>'', ''|'']"

definition sanitizeFileName :: "string \<Rightarrow> string" where
  "sanitizeFileName name =
     (let name = foldl (\<lambda>name char. ReplaceAll name char ''_'') name invalidChars;
          name = (if length name > 100 then take 100 name else name)
      in TrimSpace name)"

subsection \<open>Stripping white space rune by rune\<close>

text \<open>
  The two scans of \<open>TrimFunc\<close> written as plain recursions: \<open>stripLeft\<close> drops leading
  runes that are white space, decoding forward, and \<open>stripRight\<close> drops trailing
  ones, decoding backward.
\<close>

function stripLeft :: "string \<Rightarrow> string" where
  "stripLeft s =
     (if s = [] then []
      else if IsSpace (fst (DecodeRuneInString s))
        then stripLeft (drop (snd (DecodeRuneInString s)) s)
        else s)"
  by pat_completeness auto
termination
proof (relation "measure length")
  show "wf (measure length)" by simp
next
  fix s :: string
  assume "s \<noteq> []"
  then have "0 < snd (DecodeRuneInString s)" and "0 < length s"
    using DecodeRuneInString_size [of s] by simp_all
  then have "length s - snd (DecodeRuneInString s) < length s" by (rule diff_less)
  then show "(drop (snd (DecodeRuneInString s)) s, s) \<in> measure length" by simp
qed

declare stripLeft.simps [simp del]

function stripRight :: "string \<Rightarrow> string" where
  "stripRight s =
     (if s = [] then []
      else if IsSpace (fst (DecodeLastRuneInString s))
        then stripRight (take (length s - snd (DecodeLastRuneInString s)) s)
        else s)"
  by pat_completeness auto
termination
proof (relation "measure length")
  show "wf (measure length)" by simp
next
  fix s :: string
  assume "s \<noteq> []"
  then have "0 < snd (DecodeLastRuneInString s)" and "0 < length s"
    using DecodeLastRuneInString_forward [of s] by simp_all
  then have "length s - snd (DecodeLastRuneInString s) < length s" by (rule diff_less)
  then show "(take (length s - snd (DecodeLastRuneInString s)) s, s) \<in> measure length"
    by simp
qed

declare stripRight.simps [simp del]

lemma stripLeft_Nil [simp]: "stripLeft [] = []"
  by (simp add: stripLeft.simps)

lemma stripRight_Nil [simp]: "stripRight [] = []"
  by (simp add: stripRight.simps)

lemma stripLeft_space:
  "s \<noteq> [] \<Longrightarrow> IsSpace (fst (DecodeRuneInString s))
     \<Longrightarrow> stripLeft s = stripLeft (drop (snd (DecodeRuneInString s)) s)"
  by (subst stripLeft.simps) simp

lemma stripLeft_stop:
  "\<not> IsSpace (fst (DecodeRuneInString s)) \<Longrightarrow> stripLeft s = s"
  by (subst stripLeft.simps) simp

lemma stripRight_space:
  "s \<noteq> [] \<Longrightarrow> IsSpace (fst (DecodeLastRuneInString s))
     \<Longrightarrow> stripRight s = stripRight (take (length s - snd (DecodeLastRuneInString s)) s)"
  by (subst stripRight.simps) simp

lemma stripRight_stop:
  "\<not> IsSpace (fst (DecodeLastRuneInString s)) \<Longrightarrow> stripRight s = s"
  by (subst stripRight.simps) simp

lemma stripLeft_drop: "\<exists>m. m \<le> length s \<and> stripLeft s = drop m s"
proof (induction s rule: stripLeft.induct)
  case (1 s)
  show ?case
  proof (cases "s \<noteq> [] \<and> IsSpace (fst (DecodeRuneInString s))")
    case True
    let ?n = "snd (DecodeRuneInString s)"
    obtain m where m: "m \<le> length (drop ?n s)" "stripLeft (drop ?n s) = drop m (drop ?n s)"
      using 1 True by blast
    have "?n \<le> length s" using True DecodeRuneInString_size by blast
    then have "m + ?n \<le> length s \<and> stripLeft s = drop (m + ?n) s"
      using m True by (simp add: stripLeft_space)
    then show ?thesis by blast
  next
    case False
    then have "stripLeft s = drop 0 s" by (cases "s = []") (simp_all add: stripLeft_stop)
    then show ?thesis by blast
  qed
qed

lemma stripLeft_trimmed:
  "stripLeft s \<noteq> [] \<Longrightarrow> \<not> IsSpace (fst (DecodeRuneInString (stripLeft s)))"
proof (induction s rule: stripLeft.induct)
  case (1 s)
  show ?case
  proof (cases "s \<noteq> [] \<and> IsSpace (fst (DecodeRuneInString s))")
    case True
    then show ?thesis using 1 by (simp add: stripLeft_space)
  next
    case False
    then show ?thesis using 1(2) by (cases "s = []") (simp_all add: stripLeft_stop)
  qed
qed

lemma stripRight_take: "\<exists>n. n \<le> length s \<and> stripRight s = take n s"
proof (induction s rule: stripRight.induct)
  case (1 s)
  show ?case
  proof (cases "s \<noteq> [] \<and> IsSpace (fst (DecodeLastRuneInString s))")
    case True
    let ?k = "length s - snd (DecodeLastRuneInString s)"
    obtain n where n: "n \<le> length (take ?k s)" "stripRight (take ?k s) = take n (take ?k s)"
      using 1 True by blast
    have le: "n \<le> ?k" "n \<le> length s" using n(1) by simp_all
    then have "take n (take ?k s) = take n s" by (simp add: min_absorb1)
    then have "stripRight s = take n s" using n(2) True by (simp add: stripRight_space)
    then show ?thesis using le by blast
  next
    case False
    then have "stripRight s = take (length s) s"
      by (cases "s = []") (simp_all add: stripRight_stop)
    then show ?thesis by blast
  qed
qed

lemma stripRight_trimmed:
  "stripRight s \<noteq> [] \<Longrightarrow> \<not> IsSpace (fst (DecodeLastRuneInString (stripRight s)))"
proof (induction s rule: stripRight.induct)
  case (1 s)
  show ?case
  proof (cases "s \<noteq> [] \<and> IsSpace (fst (DecodeLastRuneInString s))")
    case True
    then show ?thesis using 1 by (simp add: stripRight_space)
  next
    case False
    then show ?thesis using 1(2) by (cases "s = []") (simp_all add: stripRight_stop)
  qed
qed

lemma stripRight_prefix: "stripRight s = take (length (stripRight s)) s"
proof -
  obtain n where "n \<le> length s" "stripRight s = take n s" using stripRight_take by blast
  then show ?thesis by simp
qed

text \<open>What \<open>stripRight\<close> cuts off begins with the first byte of a rune.\<close>

lemma DecodeLast_space_RuneStart:
  assumes ne: "s \<noteq> []" and sp: "IsSpace (fst (DecodeLastRuneInString s))"
  shows "RuneStart (byte (s ! (length s - snd (DecodeLastRuneInString s))))"
proof -
  let ?n = "snd (DecodeLastRuneInString s)"
  let ?t = "drop (length s - ?n) s"
  have f: "1 \<le> ?n \<and> ?n \<le> length s \<and> DecodeRuneInString ?t = DecodeLastRuneInString s"
    using ne by (rule DecodeLastRuneInString_forward)
  then have "0 < ?n" and "0 < length s" using ne by simp_all
  then have "length s - ?n < length s" by (rule diff_less)
  then have t: "?t \<noteq> []" by simp
  have "DecodeRuneInString ?t \<noteq> (RuneError, 1)"
    using f sp not_IsSpace_RuneError by (metis fst_conv)
  with t have "RuneStart (byte (?t ! 0))" by (rule DecodeRuneInString_RuneStart)
  moreover have "?t ! 0 = s ! (length s - ?n + 0)" by (rule nth_drop) simp
  ultimately show ?thesis by simp
qed

lemma stripRight_rest:
  "length (stripRight s) < length s \<Longrightarrow> RuneStart (byte (s ! length (stripRight s)))"
proof (induction s rule: stripRight.induct)
  case (1 s)
  have ne: "s \<noteq> []" using 1(2) by auto
  show ?case
  proof (cases "IsSpace (fst (DecodeLastRuneInString s))")
    case False
    then show ?thesis using 1(2) by (simp add: stripRight_stop)
  next
    case True
    let ?k = "length s - snd (DecodeLastRuneInString s)"
    have k: "?k < length s"
      using ne DecodeLastRuneInString_forward [of s] by simp
    have e: "stripRight s = stripRight (take ?k s)" using ne True by (rule stripRight_space)
    obtain n where n: "n \<le> length (take ?k s)" "stripRight (take ?k s) = take n (take ?k s)"
      using stripRight_take by blast
    then have len: "length (stripRight (take ?k s)) = n" by simp
    show ?thesis
    proof (cases "n < ?k")
      case True
      then have "length (stripRight (take ?k s)) < length (take ?k s)" using len k by simp
      then have "RuneStart (byte (take ?k s ! length (stripRight (take ?k s))))"
        using 1(1) ne \<open>IsSpace (fst (DecodeLastRuneInString s))\<close> by blast
      then show ?thesis using e len True by simp
    next
      case False
      then have "n = ?k" using n(1) k by simp
      then have "length (stripRight s) = ?k" using e len by simp
      then show ?thesis using DecodeLast_space_RuneStart [OF ne True] by simp
    qed
  qed
qed


subsection \<open>The library's trimming functions are the two recursions\<close>

lemma indexFunc_stripLeft:
  "indexFunc IsSpace False i s =
     (if stripLeft s = [] then None else Some (i + (length s - length (stripLeft s))))"
proof (induction s arbitrary: i rule: stripLeft.induct)
  case (1 s)
  show ?case
  proof (cases "s = []")
    case True
    then show ?thesis by (simp add: indexFunc.simps)
  next
    case ne: False
    let ?n = "snd (DecodeRuneInString s)"
    show ?thesis
    proof (cases "IsSpace (fst (DecodeRuneInString s))")
      case True
      have e: "stripLeft s = stripLeft (drop ?n s)" using ne True by (rule stripLeft_space)
      obtain m where m: "m \<le> length (drop ?n s)" "stripLeft (drop ?n s) = drop m (drop ?n s)"
        using stripLeft_drop by blast
      have n: "?n \<le> length s" using ne DecodeRuneInString_size by blast
      have "indexFunc IsSpace False i s = indexFunc IsSpace False (i + ?n) (drop ?n s)"
        using ne True by (subst indexFunc.simps) simp
      also have "\<dots> = (if stripLeft (drop ?n s) = [] then None
          else Some (i + ?n + (length (drop ?n s) - length (stripLeft (drop ?n s)))))"
        using 1 ne True by blast
      also have "\<dots> = (if stripLeft s = [] then None
          else Some (i + (length s - length (stripLeft s))))"
        using m n unfolding e by (simp add: m(2))
      finally show ?thesis .
    next
      case False
      then have "stripLeft s = s" by (rule stripLeft_stop)
      moreover have "indexFunc IsSpace False i s = Some i"
        using ne False by (subst indexFunc.simps) simp
      ultimately show ?thesis using ne by simp
    qed
  qed
qed

lemma TrimLeftFunc_stripLeft: "TrimLeftFunc s IsSpace = stripLeft s"
proof -
  obtain m where m: "m \<le> length s" "stripLeft s = drop m s" using stripLeft_drop by blast
  then have "length s - length (stripLeft s) = m" by simp
  then show ?thesis using m(2) by (simp add: TrimLeftFunc_def indexFunc_stripLeft)
qed

lemma lastIndexFunc_stripRight:
  "lastIndexFunc IsSpace False s =
     (if stripRight s = [] then None
      else Some (length (stripRight s) - snd (DecodeLastRuneInString (stripRight s))))"
proof (induction s rule: stripRight.induct)
  case (1 s)
  show ?case
  proof (cases "s = []")
    case True
    then show ?thesis by (simp add: lastIndexFunc.simps)
  next
    case ne: False
    let ?k = "length s - snd (DecodeLastRuneInString s)"
    show ?thesis
    proof (cases "IsSpace (fst (DecodeLastRuneInString s))")
      case True
      have e: "stripRight s = stripRight (take ?k s)" using ne True by (rule stripRight_space)
      have "lastIndexFunc IsSpace False s = lastIndexFunc IsSpace False (take ?k s)"
        using ne True by (subst lastIndexFunc.simps) simp
      then show ?thesis using 1 ne True unfolding e by simp
    next
      case False
      then have "stripRight s = s" by (rule stripRight_stop)
      moreover have "lastIndexFunc IsSpace False s = Some ?k"
        using ne False by (subst lastIndexFunc.simps) simp
      ultimately show ?thesis using ne by simp
    qed
  qed
qed

lemma TrimRightFunc_stripRight: "TrimRightFunc s IsSpace = stripRight s"
proof (cases "stripRight s = []")
  case True
  then show ?thesis by (simp add: TrimRightFunc_def lastIndexFunc_stripRight)
next
  case False
  define u where "u = stripRight s"
  define n where "n = snd (DecodeLastRuneInString u)"
  define i where "i = length u - n"
  have une: "u \<noteq> []" using False by (simp add: u_def)
  have pre: "u = take (length u) s" unfolding u_def by (rule stripRight_prefix)
  have ule: "length u \<le> length s" using pre by (metis length_take min.cobounded1)
  have f: "1 \<le> n \<and> n \<le> length u \<and> DecodeRuneInString (drop i u) = DecodeLastRuneInString u"
    unfolding n_def i_def using une by (rule DecodeLastRuneInString_forward)
  have iu: "i < length u" and in': "i + n = length u" using f une by (simp_all add: i_def)
  have idx: "lastIndexFunc IsSpace False s = Some i"
    using False by (simp add: lastIndexFunc_stripRight u_def n_def i_def)
  have si: "s ! i = u ! i" using iu pre by (metis nth_take)
  have split: "drop i s = drop i u @ drop (length u) s"
  proof -
    have "s = u @ drop (length u) s" using pre by (metis append_take_drop_id)
    then have "drop i s = drop i (u @ drop (length u) s)" by simp
    then show ?thesis using iu by simp
  qed
  have dn: "drop i u \<noteq> []" using iu by simp
  have ldn: "length (drop i u) = n" using in' by simp
  have target: "take (length u) s = stripRight s" using pre by (simp add: u_def)
  show ?thesis
  proof (cases "RuneSelf \<le> byte (s ! i)")
    case wide: True
    have "snd (DecodeRuneInString (drop i s)) = n"
    proof (cases "DecodeRuneInString (drop i u) = (RuneError, 1)")
      case False
      then have "DecodeRuneInString (drop i u @ drop (length u) s) = DecodeRuneInString (drop i u)"
        using dn by (intro DecodeRuneInString_append)
      then show ?thesis using f unfolding split by (simp add: n_def)
    next
      case True
      then have n1: "n = 1" using f by (simp add: n_def)
      have hd: "drop i s ! 0 = s ! i" using iu ule by simp
      have nes: "drop i s \<noteq> []" using iu ule by simp
      have "length (drop i s) = 1 \<or> RuneStart (byte (drop i s ! 1))"
      proof (cases "length u < length s")
        case False
        then have "length s - i = 1" using in' n1 ule by linarith
        then show ?thesis by simp
      next
        case True
        then have "RuneStart (byte (s ! length u))"
          using stripRight_rest [of s] by (simp add: u_def)
        moreover have "drop i s ! 1 = s ! (i + 1)" using iu ule by simp
        ultimately show ?thesis using in' n1 by simp
      qed
      then have "DecodeRuneInString (drop i s) = (RuneError, 1)"
        using nes wide unfolding hd [symmetric] by (intro DecodeRuneInString_invalid)
      then show ?thesis using n1 by simp
    qed
    then show ?thesis using idx wide in' target by (simp add: TrimRightFunc_def)
  next
    case narrow: False
    have "n = 1"
    proof (rule ccontr)
      assume "n \<noteq> 1"
      then have "2 \<le> snd (DecodeRuneInString (drop i u))" using f by (simp add: n_def)
      then have "RuneSelf \<le> byte (drop i u ! 0)" by (rule DecodeRuneInString_wide)
      then show False using narrow si iu by simp
    qed
    then show ?thesis using idx narrow in' target by (simp add: TrimRightFunc_def)
  qed
qed

lemma IsSpace_ascii: "b < RuneSelf \<Longrightarrow> IsSpace b = asciiSpace b"
  by (auto simp: IsSpace_def asciiSpace_def RuneSelf_def)

lemma DecodeLastRuneInString_ascii:
  "s \<noteq> [] \<Longrightarrow> byte (last s) < RuneSelf \<Longrightarrow> DecodeLastRuneInString s = (byte (last s), 1)"
  by (simp add: DecodeLastRuneInString_def Let_def last_conv_nth nat_diff_distrib')

lemma trimSpaceStop_stripRight: "trimSpaceStop s = stripRight s"
proof (induction s rule: trimSpaceStop.induct)
  case (1 s)
  show ?case
  proof (cases "s = []")
    case True
    then show ?thesis by (simp add: trimSpaceStop.simps)
  next
    case ne: False
    show ?thesis
    proof (cases "RuneSelf \<le> byte (last s)")
      case True
      then show ?thesis using ne
        by (subst trimSpaceStop.simps) (simp add: TrimRightFunc_stripRight)
    next
      case False
      then have d: "DecodeLastRuneInString s = (byte (last s), 1)"
        using ne by (simp add: DecodeLastRuneInString_ascii)
      have sp: "IsSpace (byte (last s)) = asciiSpace (byte (last s))"
        using False by (simp add: IsSpace_ascii)
      show ?thesis
      proof (cases "asciiSpace (byte (last s))")
        case True
        then have "trimSpaceStop s = trimSpaceStop (butlast s)"
          using ne False by (subst trimSpaceStop.simps) simp
        also have "\<dots> = stripRight (butlast s)" using 1 ne False True by blast
        also have "\<dots> = stripRight s"
          using ne True sp d stripRight_space [of s] by (simp add: butlast_conv_take)
        finally show ?thesis .
      next
        case False
        then have "stripRight s = s" using sp d by (simp add: stripRight_stop)
        moreover have "trimSpaceStop s = s"
          using ne False \<open>\<not> RuneSelf \<le> byte (last s)\<close> by (subst trimSpaceStop.simps) simp
        ultimately show ?thesis by simp
      qed
    qed
  qed
qed

lemma trimSpaceStart_strip: "trimSpaceStart s = stripRight (stripLeft s)"
proof (induction s)
  case Nil
  show ?case by (simp add: trimSpaceStop_stripRight)
next
  case (Cons c cs)
  show ?case
  proof (cases "RuneSelf \<le> byte c")
    case True
    then show ?thesis
      by (simp add: TrimFunc_def TrimRightFunc_stripRight TrimLeftFunc_stripLeft)
  next
    case False
    then have d: "DecodeRuneInString (c # cs) = (byte c, 1)"
      using DecodeRuneInString_ascii [of "c # cs"] by simp
    have sp: "IsSpace (byte c) = asciiSpace (byte c)" using False by (simp add: IsSpace_ascii)
    show ?thesis
    proof (cases "asciiSpace (byte c)")
      case True
      then have "stripLeft (c # cs) = stripLeft cs"
        using sp d stripLeft_space [of "c # cs"] by simp
      then show ?thesis using True False Cons by simp
    next
      case False
      then have "stripLeft (c # cs) = c # cs" using sp d by (simp add: stripLeft_stop)
      then show ?thesis
        using False \<open>\<not> RuneSelf \<le> byte c\<close> by (simp add: trimSpaceStop_stripRight)
    qed
  qed
qed

lemma TrimSpace_strip: "TrimSpace s = stripRight (stripLeft s)"
  by (simp add: TrimSpace_def trimSpaceStart_strip)

subsection \<open>Trimming twice\<close>

lemma DecodeRuneInString_Nil: "DecodeRuneInString [] = (RuneError, 0)"
  by (simp add: DecodeRuneInString_def)

lemma not_space_take:
  assumes "\<not> IsSpace (fst (DecodeRuneInString u))"
  shows "\<not> IsSpace (fst (DecodeRuneInString (take n u)))"
proof
  assume sp: "IsSpace (fst (DecodeRuneInString (take n u)))"
  have ne: "take n u \<noteq> []"
  proof
    assume e: "take n u = []"
    show False using sp not_IsSpace_RuneError unfolding e DecodeRuneInString_Nil by simp
  qed
  have "DecodeRuneInString (take n u) \<noteq> (RuneError, 1)"
    using sp not_IsSpace_RuneError by (metis fst_conv)
  with ne have "DecodeRuneInString (take n u @ drop n u) = DecodeRuneInString (take n u)"
    by (rule DecodeRuneInString_append)
  then show False using sp assms by simp
qed

lemma stripLeft_fixed: "s = [] \<or> \<not> IsSpace (fst (DecodeRuneInString s)) \<Longrightarrow> stripLeft s = s"
  by (auto simp: stripLeft_stop)

lemma stripRight_fixed:
  "s = [] \<or> \<not> IsSpace (fst (DecodeLastRuneInString s)) \<Longrightarrow> stripRight s = s"
  by (auto simp: stripRight_stop)

lemma TrimSpace_fixed:
  assumes l: "s = [] \<or> \<not> IsSpace (fst (DecodeRuneInString s))"
    and r: "s = [] \<or> \<not> IsSpace (fst (DecodeLastRuneInString s))"
  shows "TrimSpace s = s"
  using l r by (simp add: TrimSpace_strip stripLeft_fixed stripRight_fixed)

lemma TrimSpace_trimmed:
  "(TrimSpace s = [] \<or> \<not> IsSpace (fst (DecodeRuneInString (TrimSpace s))))
   \<and> (TrimSpace s = [] \<or> \<not> IsSpace (fst (DecodeLastRuneInString (TrimSpace s))))"
proof -
  define u where "u = stripLeft s"
  obtain k where k: "k \<le> length u" "stripRight u = take k u" using stripRight_take by blast
  have "u = [] \<or> \<not> IsSpace (fst (DecodeRuneInString u))"
    unfolding u_def using stripLeft_trimmed by blast
  then have "\<not> IsSpace (fst (DecodeRuneInString u))"
    using not_IsSpace_RuneError by (auto simp: DecodeRuneInString_Nil)
  then have "\<not> IsSpace (fst (DecodeRuneInString (stripRight u)))"
    unfolding k(2) by (rule not_space_take)
  moreover have "stripRight u = [] \<or> \<not> IsSpace (fst (DecodeLastRuneInString (stripRight u)))"
    using stripRight_trimmed by blast
  ultimately show ?thesis by (simp add: TrimSpace_strip u_def)
qed

lemma TrimSpace_idem: "TrimSpace (TrimSpace s) = TrimSpace s"
  using TrimSpace_trimmed [of s] by (intro TrimSpace_fixed) blast+

lemma TrimSpace_sub: "\<exists>m n. TrimSpace s = take n (drop m s)"
proof -
  obtain m where "stripLeft s = drop m s" using stripLeft_drop by blast
  moreover obtain n where "stripRight (stripLeft s) = take n (stripLeft s)"
    using stripRight_take by blast
  ultimately show ?thesis by (auto simp: TrimSpace_strip)
qed

lemma set_TrimSpace: "set (TrimSpace s) \<subseteq> set s"
proof -
  obtain m n where "TrimSpace s = take n (drop m s)" using TrimSpace_sub by blast
  then show ?thesis by (metis set_take_subset set_drop_subset subset_trans)
qed

lemma length_TrimSpace: "length (TrimSpace s) \<le> length s"
proof -
  obtain m n where "TrimSpace s = take n (drop m s)" using TrimSpace_sub by blast
  then show ?thesis by simp
qed

subsection \<open>When trimming leaves nothing\<close>

lemma stripRight_nonempty:
  "\<not> IsSpace (fst (DecodeRuneInString u)) \<Longrightarrow> 0 < k \<Longrightarrow> k \<le> length u \<Longrightarrow> v = take k u
     \<Longrightarrow> stripRight v \<noteq> []"
proof (induction v arbitrary: k rule: stripRight.induct)
  case (1 v)
  have ne: "v \<noteq> []" using 1(3,4,5) by auto
  have lv: "length v = k" using 1(4,5) by simp
  show ?case
  proof (cases "IsSpace (fst (DecodeLastRuneInString v))")
    case False
    then show ?thesis using ne by (simp add: stripRight_stop)
  next
    case True
    let ?n = "snd (DecodeLastRuneInString v)"
    have f: "1 \<le> ?n \<and> ?n \<le> length v
        \<and> DecodeRuneInString (drop (length v - ?n) v) = DecodeLastRuneInString v"
      using ne by (rule DecodeLastRuneInString_forward)
    have e: "stripRight v = stripRight (take (length v - ?n) v)"
      using ne True by (rule stripRight_space)
    show ?thesis
    proof (cases "length v - ?n = 0")
      case True
      then have "DecodeRuneInString v = DecodeLastRuneInString v" using f by simp
      then have "IsSpace (fst (DecodeRuneInString (take k u)))"
        using \<open>IsSpace (fst (DecodeLastRuneInString v))\<close> 1(5) by simp
      then show ?thesis using not_space_take [OF 1(2)] by blast
    next
      case False
      have "take (length v - ?n) v = take (length v - ?n) u"
        unfolding 1(5) using lv by (simp add: min_absorb1)
      then have "stripRight (take (length v - ?n) v) \<noteq> []"
        using 1(1) [of "length v - ?n"] ne True False 1(2) 1(4) lv by simp
      then show ?thesis using e by simp
    qed
  qed
qed

lemma TrimSpace_empty: "TrimSpace s = [] \<longleftrightarrow> stripLeft s = []"
proof
  assume "stripLeft s = []"
  then show "TrimSpace s = []" by (simp add: TrimSpace_strip)
next
  assume e: "TrimSpace s = []"
  show "stripLeft s = []"
  proof (rule ccontr)
    assume ne: "stripLeft s \<noteq> []"
    then have "\<not> IsSpace (fst (DecodeRuneInString (stripLeft s)))" by (rule stripLeft_trimmed)
    then have "stripRight (take (length (stripLeft s)) (stripLeft s)) \<noteq> []"
      using ne by (intro stripRight_nonempty [of "stripLeft s" "length (stripLeft s)"]) simp_all
    then show False using e by (simp add: TrimSpace_strip)
  qed
qed

subsection \<open>The sanitizer in the words of its description\<close>

text \<open>
  \<open>replaceInvalid\<close> replaces one of the nine characters by an underscore;
  \<open>whitespaceOnly s\<close> holds when \<open>s\<close> decodes, rune after rune, into white space
  only (the empty string included).
\<close>

definition replaceInvalid :: "char \<Rightarrow> char" where
  "replaceInvalid c = (if [c] \<in> set invalidChars then CHR ''_'' else c)"

function whitespaceOnly :: "string \<Rightarrow> bool" where
  "whitespaceOnly s =
     (if s = [] then True
      else if IsSpace (fst (DecodeRuneInString s))
        then whitespaceOnly (drop (snd (DecodeRuneInString s)) s)
        else False)"
  by pat_completeness auto
termination
proof (relation "measure length")
  show "wf (measure length)" by simp
next
  fix s :: string
  assume "s \<noteq> []"
  then have "0 < snd (DecodeRuneInString s)" and "0 < length s"
    using DecodeRuneInString_size [of s] by simp_all
  then have "length s - snd (DecodeRuneInString s) < length s" by (rule diff_less)
  then show "(drop (snd (DecodeRuneInString s)) s, s) \<in> measure length" by simp
qed

declare whitespaceOnly.simps [simp del]

lemma whitespaceOnly_stripLeft: "whitespaceOnly s \<longleftrightarrow> stripLeft s = []"
proof (induction s rule: stripLeft.induct)
  case (1 s)
  show ?case
  proof (cases "s = []")
    case True
    then show ?thesis by (simp add: whitespaceOnly.simps)
  next
    case ne: False
    show ?thesis
    proof (cases "IsSpace (fst (DecodeRuneInString s))")
      case True
      then show ?thesis
        using 1 ne stripLeft_space [of s] by (subst whitespaceOnly.simps) simp
    next
      case False
      then show ?thesis
        using ne stripLeft_stop [of s] by (subst whitespaceOnly.simps) simp
    qed
  qed
qed

lemma ReplaceAll_byte:
  "ReplaceAll s [c] [d] = map (\<lambda>x. if x = c then d else x) s"
proof (induction s)
  case Nil
  show ?case by (simp add: ReplaceAll.simps)
next
  case (Cons x xs)
  then show ?case by (subst ReplaceAll.simps) simp
qed

lemma replaceInvalid_eq:
  "replaceInvalid c =
     (if c = CHR 0x5C \<or> c = CHR ''/'' \<or> c = CHR '':'' \<or> c = CHR ''*'' \<or> c = CHR ''?''
         \<or> c = CHR 0x22 \<or> c = CHR ''<'' \<or> c = CHR ''>'' \<or> c = CHR ''|''
      then CHR ''_'' else c)"
  by (simp add: replaceInvalid_def invalidChars_def)

lemma replace_loop:
  "foldl (\<lambda>name char. ReplaceAll name char ''_'') name invalidChars = map replaceInvalid name"
proof -
  have "foldl (\<lambda>name char. ReplaceAll name char ''_'') name invalidChars =
      map ((\<lambda>x. if x = CHR ''|'' then CHR ''_'' else x)
         \<circ> (\<lambda>x. if x = CHR ''>'' then CHR ''_'' else x)
         \<circ> (\<lambda>x. if x = CHR ''<'' then CHR ''_'' else x)
         \<circ> (\<lambda>x. if x = CHR 0x22 then CHR ''_'' else x)
         \<circ> (\<lambda>x. if x = CHR ''?'' then CHR ''_'' else x)
         \<circ> (\<lambda>x. if x = CHR ''*'' then CHR ''_'' else x)
         \<circ> (\<lambda>x. if x = CHR '':'' then CHR ''_'' else x)
         \<circ> (\<lambda>x. if x = CHR ''/'' then CHR ''_'' else x)
         \<circ> (\<lambda>x. if x = CHR 0x5C then CHR ''_'' else x)) name"
    by (simp add: invalidChars_def ReplaceAll_byte)
  also have "\<dots> = map replaceInvalid name"
    by (rule map_cong) (simp_all add: replaceInvalid_eq)
  finally show ?thesis .
qed

lemma sanitizeFileName_eq:
  "sanitizeFileName name = TrimSpace (take 100 (map replaceInvalid name))"
  by (simp add: sanitizeFileName_def replace_loop Let_def)

lemma replaceInvalid_idem: "replaceInvalid (replaceInvalid c) = replaceInvalid c"
  by (simp add: replaceInvalid_eq)

lemma sanitizeFileName_idem: "sanitizeFileName (sanitizeFileName s) = sanitizeFileName s"
proof -
  define t where "t = take 100 (map replaceInvalid s)"
  define r where "r = TrimSpace t"
  have r: "sanitizeFileName s = r" by (simp add: sanitizeFileName_eq r_def t_def)
  have "set r \<subseteq> set t" unfolding r_def by (rule set_TrimSpace)
  also have "\<dots> \<subseteq> set (map replaceInvalid s)" unfolding t_def by (rule set_take_subset)
  finally have sub: "set r \<subseteq> replaceInvalid ` set s" by simp
  have "map replaceInvalid r = r"
  proof (rule map_idI)
    fix x assume "x \<in> set r"
    then obtain c where "x = replaceInvalid c" using sub by blast
    then show "replaceInvalid x = x" by (simp add: replaceInvalid_idem)
  qed
  moreover have "length r \<le> 100"
    using length_TrimSpace [of t] by (simp add: r_def t_def)
  ultimately have "sanitizeFileName r = TrimSpace r" by (simp add: sanitizeFileName_eq)
  also have "\<dots> = r" unfolding r_def by (rule TrimSpace_idem)
  finally show ?thesis unfolding r .
qed

subsection \<open>Replacement does not touch white space\<close>

lemma byte_replaceInvalid:
  "(RuneSelf \<le> byte c \<longrightarrow> replaceInvalid c = c)
   \<and> (byte c < RuneSelf \<longrightarrow> byte (replaceInvalid c) < RuneSelf
        \<and> asciiSpace (byte (replaceInvalid c)) = asciiSpace (byte c))"
  by (auto simp: replaceInvalid_eq byte_def RuneSelf_def asciiSpace_def)

lemma byte_replaceInvalid_cont:
  "0x80 \<le> lo \<Longrightarrow> (byte (replaceInvalid c) < lo \<or> hi < byte (replaceInvalid c))
      = (byte c < lo \<or> hi < byte c)"
  using byte_replaceInvalid [of c] by (cases "byte c < RuneSelf") (auto simp: RuneSelf_def)

lemma byte_replaceInvalid_cont':
  "(byte (replaceInvalid c) < 0x80 \<or> 0xBF < byte (replaceInvalid c))
      = (byte c < 0x80 \<or> 0xBF < byte c)"
  using byte_replaceInvalid_cont [of "0x80" c "0xBF"] by simp

lemma byte_replaceInvalid_val:
  "\<not> (byte c < lo \<or> hi < byte c) \<Longrightarrow> 0x80 \<le> lo \<Longrightarrow> replaceInvalid c = c"
  using byte_replaceInvalid [of c] by (auto simp: RuneSelf_def)

lemma DecodeRuneInString_replaceInvalid:
  assumes ne: "s \<noteq> []" and hi: "RuneSelf \<le> byte (s ! 0)"
  shows "DecodeRuneInString (map replaceInvalid s) = DecodeRuneInString s"
proof -
  let ?m = "map replaceInvalid s"
  have ne': "?m \<noteq> []" using ne by simp
  have hd: "?m ! 0 = s ! 0" using ne hi byte_replaceInvalid by (cases s) simp_all
  have n1: "1 < length s \<Longrightarrow> ?m ! 1 = replaceInvalid (s ! 1)" by simp
  have n2: "2 < length s \<Longrightarrow> ?m ! 2 = replaceInvalid (s ! 2)" by simp
  have n3: "3 < length s \<Longrightarrow> ?m ! 3 = replaceInvalid (s ! 3)" by simp
  from ne show ?thesis
  proof (cases rule: DecodeRuneInString_cases)
    case ascii
    then show ?thesis using hi by simp
  next
    case invalid
    then show ?thesis using ne' hd by (simp add: DecodeRuneInString_no_first)
  next
    case (two lo hi)
    have a: "DecodeRuneInString s =
        (if length s < 2 \<or> byte (s ! 1) < lo \<or> hi < byte (s ! 1) then (RuneError, 1)
         else ((byte (s ! 0) mod 32) * 64 + byte (s ! 1) mod 64, 2))"
      using ne two(1,2) by (rule DecodeRuneInString_two)
    have b: "DecodeRuneInString ?m =
        (if length ?m < 2 \<or> byte (?m ! 1) < lo \<or> hi < byte (?m ! 1) then (RuneError, 1)
         else ((byte (?m ! 0) mod 32) * 64 + byte (?m ! 1) mod 64, 2))"
      using ne' two(1,2) unfolding hd [symmetric] by (rule DecodeRuneInString_two)
    show ?thesis
    proof (cases "length s < 2")
      case True
      then show ?thesis using a b by simp
    next
      case False
      then have l: "1 < length s" by simp
      show ?thesis
      proof (cases "byte (s ! 1) < lo \<or> hi < byte (s ! 1)")
        case True
        then show ?thesis
          using a b l byte_replaceInvalid_cont [OF two(3), of "s ! 1" hi] by (simp add: n1)
      next
        case False
        then have "replaceInvalid (s ! 1) = s ! 1" using two(3) by (rule byte_replaceInvalid_val)
        then show ?thesis using a b l hd by (simp add: n1)
      qed
    qed
  next
    case (three lo hi)
    have a: "DecodeRuneInString s =
        (if length s < 3 \<or> byte (s ! 1) < lo \<or> hi < byte (s ! 1)
            \<or> byte (s ! 2) < 0x80 \<or> 0xBF < byte (s ! 2) then (RuneError, 1)
         else ((byte (s ! 0) mod 16) * 4096 + (byte (s ! 1) mod 64) * 64
                 + byte (s ! 2) mod 64, 3))"
      using ne three(1,2) by (rule DecodeRuneInString_three)
    have b: "DecodeRuneInString ?m =
        (if length ?m < 3 \<or> byte (?m ! 1) < lo \<or> hi < byte (?m ! 1)
            \<or> byte (?m ! 2) < 0x80 \<or> 0xBF < byte (?m ! 2) then (RuneError, 1)
         else ((byte (?m ! 0) mod 16) * 4096 + (byte (?m ! 1) mod 64) * 64
                 + byte (?m ! 2) mod 64, 3))"
      using ne' three(1,2) unfolding hd [symmetric] by (rule DecodeRuneInString_three)
    show ?thesis
    proof (cases "length s < 3")
      case True
      then show ?thesis using a b by simp
    next
      case False
      then have l: "1 < length s" "2 < length s" by simp_all
      show ?thesis
      proof (cases "(byte (s ! 1) < lo \<or> hi < byte (s ! 1))
          \<or> (byte (s ! 2) < 0x80 \<or> 0xBF < byte (s ! 2))")
        case True
        then have "(byte (?m ! 1) < lo \<or> hi < byte (?m ! 1))
          \<or> (byte (?m ! 2) < 0x80 \<or> 0xBF < byte (?m ! 2))"
          unfolding n1 [OF l(1)] n2 [OF l(2)] byte_replaceInvalid_cont [OF three(3)]
            byte_replaceInvalid_cont' .
        then show ?thesis using a b True by auto
      next
        case False
        then have "replaceInvalid (s ! 1) = s ! 1" "replaceInvalid (s ! 2) = s ! 2"
          using three(3) byte_replaceInvalid_val [of "s ! 1" lo hi]
            byte_replaceInvalid_val [of "s ! 2" "0x80" "0xBF"] by auto
        then show ?thesis using a b l hd by (simp add: n1 n2)
      qed
    qed
  next
    case (four lo hi)
    have a: "DecodeRuneInString s =
        (if length s < 4 \<or> byte (s ! 1) < lo \<or> hi < byte (s ! 1)
            \<or> byte (s ! 2) < 0x80 \<or> 0xBF < byte (s ! 2)
            \<or> byte (s ! 3) < 0x80 \<or> 0xBF < byte (s ! 3) then (RuneError, 1)
         else ((byte (s ! 0) mod 8) * 262144 + (byte (s ! 1) mod 64) * 4096
                 + (byte (s ! 2) mod 64) * 64 + byte (s ! 3) mod 64, 4))"
      using ne four(1,2) by (rule DecodeRuneInString_four)
    have b: "DecodeRuneInString ?m =
        (if length ?m < 4 \<or> byte (?m ! 1) < lo \<or> hi < byte (?m ! 1)
            \<or> byte (?m ! 2) < 0x80 \<or> 0xBF < byte (?m ! 2)
            \<or> byte (?m ! 3) < 0x80 \<or> 0xBF < byte (?m ! 3) then (RuneError, 1)
         else ((byte (?m ! 0) mod 8) * 262144 + (byte (?m ! 1) mod 64) * 4096
                 + (byte (?m ! 2) mod 64) * 64 + byte (?m ! 3) mod 64, 4))"
      using ne' four(1,2) unfolding hd [symmetric] by (rule DecodeRuneInString_four)
    show ?thesis
    proof (cases "length s < 4")
      case True
      then show ?thesis using a b by simp
    next
      case False
      then have l: "1 < length s" "2 < length s" "3 < length s" by simp_all
      show ?thesis
      proof (cases "(byte (s ! 1) < lo \<or> hi < byte (s ! 1))
          \<or> (byte (s ! 2) < 0x80 \<or> 0xBF < byte (s ! 2))
          \<or> (byte (s ! 3) < 0x80 \<or> 0xBF < byte (s ! 3))")
        case True
        then have "(byte (?m ! 1) < lo \<or> hi < byte (?m ! 1))
          \<or> (byte (?m ! 2) < 0x80 \<or> 0xBF < byte (?m ! 2))
          \<or> (byte (?m ! 3) < 0x80 \<or> 0xBF < byte (?m ! 3))"
          unfolding n1 [OF l(1)] n2 [OF l(2)] n3 [OF l(3)]
            byte_replaceInvalid_cont [OF four(3)] byte_replaceInvalid_cont' .
        then show ?thesis using a b True by auto
      next
        case False
        then have "replaceInvalid (s ! 1) = s ! 1" "replaceInvalid (s ! 2) = s ! 2"
            "replaceInvalid (s ! 3) = s ! 3"
          using four(3) byte_replaceInvalid_val [of "s ! 1" lo hi]
            byte_replaceInvalid_val [of "s ! 2" "0x80" "0xBF"]
            byte_replaceInvalid_val [of "s ! 3" "0x80" "0xBF"] by auto
        then show ?thesis using a b l hd by (simp add: n1 n2 n3)
      qed
    qed
  qed
qed

lemma whitespaceOnly_replaceInvalid:
  "whitespaceOnly (map replaceInvalid s) = whitespaceOnly s"
proof (induction s rule: whitespaceOnly.induct)
  case (1 s)
  show ?case
  proof (cases "s = []")
    case True
    then show ?thesis by simp
  next
    case ne: False
    let ?m = "map replaceInvalid s"
    have ne': "?m \<noteq> []" using ne by simp
    have d: "IsSpace (fst (DecodeRuneInString ?m)) = IsSpace (fst (DecodeRuneInString s))
        \<and> snd (DecodeRuneInString ?m) = snd (DecodeRuneInString s)"
    proof (cases "RuneSelf \<le> byte (s ! 0)")
      case True
      with ne show ?thesis by (simp add: DecodeRuneInString_replaceInvalid)
    next
      case False
      then have lo: "byte (s ! 0) < RuneSelf" by simp
      have hd: "?m ! 0 = replaceInvalid (s ! 0)" using ne by (cases s) simp_all
      have lo': "byte (?m ! 0) < RuneSelf" and sp: "asciiSpace (byte (?m ! 0)) = asciiSpace (byte (s ! 0))"
        unfolding hd using lo byte_replaceInvalid [of "s ! 0"] by simp_all
      show ?thesis
        using ne ne' lo lo' sp
        by (simp add: DecodeRuneInString_ascii IsSpace_ascii del: list.map_disc_iff)
    qed
    show ?thesis
    proof (cases "IsSpace (fst (DecodeRuneInString s))")
      case True
      then have "whitespaceOnly ?m
          = whitespaceOnly (map replaceInvalid (drop (snd (DecodeRuneInString s)) s))"
        using d ne' by (subst whitespaceOnly.simps) (simp add: drop_map)
      also have "\<dots> = whitespaceOnly (drop (snd (DecodeRuneInString s)) s)"
        using 1 ne True by blast
      also have "\<dots> = whitespaceOnly s"
        using ne True by (subst (2) whitespaceOnly.simps) simp
      finally show ?thesis .
    next
      case False
      then have "\<not> whitespaceOnly s" using ne by (subst whitespaceOnly.simps) simp
      moreover have "\<not> whitespaceOnly ?m"
        using False d ne' by (subst whitespaceOnly.simps) simp
      ultimately show ?thesis by simp
    qed
  qed
qed

lemma sanitizeFileName_empty:
  "sanitizeFileName s = [] \<longleftrightarrow> whitespaceOnly (take 100 s)"
proof -
  have "sanitizeFileName s = [] \<longleftrightarrow> whitespaceOnly (take 100 (map replaceInvalid s))"
    by (simp add: sanitizeFileName_eq TrimSpace_empty whitespaceOnly_stripLeft)
  also have "take 100 (map replaceInvalid s) = map replaceInvalid (take 100 s)"
    by (rule take_map)
  finally show ?thesis by (simp add: whitespaceOnly_replaceInvalid)
qed

subsection \<open>Claims about the sanitizer\<close>

text \<open>
  Claim C7, as the code has it. The sanitizer replaces each of the characters
  \<^verbatim>\<open>\ / : * ? " < > |\<close> by an underscore, every other byte staying where it is, then
  keeps at most the first 100 bytes (exactly \<open>min 100 (length s)\<close> of them), then
  strips leading and trailing white space. Its result is empty exactly when the first
  100 bytes of the title are white space only, which a title with more than 100 bytes
  can satisfy without being white space as a whole.
\<close>

theorem C7_sanitize:
  "sanitizeFileName s = stripRight (stripLeft (take 100 (map replaceInvalid s)))
   \<and> length (take 100 (map replaceInvalid s)) = min 100 (length s)
   \<and> (sanitizeFileName s = [] \<longleftrightarrow> whitespaceOnly (take 100 s))"
  using sanitizeFileName_empty [of s]
  by (simp add: sanitizeFileName_eq TrimSpace_strip min.commute)

text \<open>
  \<open>sanitize("a/b:c*d?")\<close> is \<open>"a_b_c_d_"\<close>, a title of 150 bytes is cut to 100 bytes
  before the trim, and the empty title and a title of blanks give the empty name.
\<close>

theorem C7_sanitize_witness:
  "sanitizeFileName ''a/b:c*d?'' = ''a_b_c_d_''
   \<and> length (take 100 (map replaceInvalid (replicate 150 (CHR ''x'')))) = 100
   \<and> sanitizeFileName (replicate 150 (CHR ''x'')) = replicate 100 (CHR ''x'')
   \<and> sanitizeFileName [] = []
   \<and> sanitizeFileName ''   '' = []"
proof -
  have a: "stripRight (stripLeft (take 100 (map replaceInvalid ''a/b:c*d?''))) = ''a_b_c_d_''"
    by code_simp
  have b: "stripRight (stripLeft (take 100 (map replaceInvalid (replicate 150 (CHR ''x'')))))
      = replicate 100 (CHR ''x'')"
    by code_simp
  have c: "whitespaceOnly (take 100 [])" and d: "whitespaceOnly (take 100 ''   '')"
    by code_simp+
  have p1: "sanitizeFileName ''a/b:c*d?'' = ''a_b_c_d_''"
    unfolding C7_sanitize [of "''a/b:c*d?''", THEN conjunct1] by (rule a)
  have p2: "length (take 100 (map replaceInvalid (replicate 150 (CHR ''x'')))) = 100"
    unfolding C7_sanitize [of "replicate 150 (CHR ''x'')", THEN conjunct2, THEN conjunct1]
    by simp
  have p3: "sanitizeFileName (replicate 150 (CHR ''x'')) = replicate 100 (CHR ''x'')"
    unfolding C7_sanitize [of "replicate 150 (CHR ''x'')", THEN conjunct1] by (rule b)
  have p4: "sanitizeFileName [] = []"
    using C7_sanitize [of "[]", THEN conjunct2, THEN conjunct2] c by blast
  have p5: "sanitizeFileName ''   '' = []"
    using C7_sanitize [of "''   ''", THEN conjunct2, THEN conjunct2] d by blast
  show ?thesis using p1 p2 p3 p4 p5 by blast
qed

text \<open>
  The claim as written fails: a title of 100 blanks followed by \<open>a\<close> is neither empty
  nor white space only, and its sanitized name is empty.
\<close>

theorem C7_empty_output_counterexample:
  "sanitizeFileName (replicate 100 (CHR '' '') @ ''a'') = []
   \<and> \<not> whitespaceOnly (replicate 100 (CHR '' '') @ ''a'')
   \<and> replicate 100 (CHR '' '') @ ''a'' \<noteq> []"
  by code_simp

text \<open>
  Claim C8. The sanitizer is a total function of the title (every loop of the model
  carries its termination proof and no branch fails), and it is idempotent: applied
  to one of its own results it returns that result.
\<close>

theorem C8_sanitize_idempotent:
  "sanitizeFileName (sanitizeFileName s) = sanitizeFileName s"
  by (rule sanitizeFileName_idem)

section \<open>Item download pipeline (main.go, DownloadVideo)\<close>

text \<open>
  The fields of \<^verbatim>\<open>youtube.PlaylistEntry\<close>, \<^verbatim>\<open>youtube.Video\<close> and \<^verbatim>\<open>youtube.Playlist\<close>
  that main.go reads, and its own \<^verbatim>\<open>DownloadConfig\<close>. \<^verbatim>\<open>Parallel\<close> is a Go \<^verbatim>\<open>int\<close>.
\<close>

record PlaylistEntry =
  ID :: string
  Title :: string

record Video =
  VideoTitle :: string
  Formats :: "Format list"

record Playlist =
  PlaylistTitle :: string
  Videos :: "PlaylistEntry list"

record DownloadConfig =
  OutputDir :: string
  DownloadType :: string
  MaxQuality :: string
  Parallel :: int

text \<open>
  The calls that leave the program: the client of the video service and the file
  system. Each is a function of its arguments that returns either an error (its
  message) or a result; \<^verbatim>\<open>filepath.Join\<close> is kept as a parameter as well, since
  nothing below depends on the path it builds.
\<close>

record world =
  GetPlaylist :: "string \<Rightarrow> string + Playlist"
  MkdirAll :: "string \<Rightarrow> string option"
  GetVideo :: "string \<Rightarrow> string + Video"
  GetStream :: "Video \<Rightarrow> Format \<Rightarrow> string + string"
  Create :: "string \<Rightarrow> string option"
  ReadFrom :: "string \<Rightarrow> string \<Rightarrow> string option"
  Join :: "string \<Rightarrow> string \<Rightarrow> string"

text \<open>\<^verbatim>\<open>strings.Contains(s, substr)\<close>.\<close>

fun Contains :: "string \<Rightarrow> string \<Rightarrow> bool" where
  "Contains [] substr = (substr = [])"
| "Contains (c # cs) substr = (HasPrefix (c # cs) substr \<or> Contains cs substr)"

definition getFileExtension :: "DownloadConfig \<Rightarrow> Format \<Rightarrow> string" where
  "getFileExtension config format =
     (if DownloadType config = ''audio'' then ''.mp3''
      else if Contains (MimeType format) ''mp4'' then ''.mp4''
      else if Contains (MimeType format) ''webm'' then ''.webm''
      else ''.mp4'')"

text \<open>
  \<^verbatim>\<open>DownloadVideo\<close>: \<open>Inr None\<close> is the nil error, \<open>Inr (Some msg)\<close> a returned error
  and \<open>Inl p\<close> a panic (the one \<open>selectFormat\<close> can raise).
\<close>

definition DownloadVideo :: "world \<Rightarrow> DownloadConfig \<Rightarrow> string \<Rightarrow> panic + string option" where
  "DownloadVideo w config videoID =
     (case GetVideo w videoID of
        Inl err \<Rightarrow> Inr (Some (''failed to get video info: '' @ err))
      | Inr video \<Rightarrow>
          (case selectFormat (DownloadType config) (Formats video) of
             Inl p \<Rightarrow> Inl p
           | Inr None \<Rightarrow> Inr (Some ''no suitable format found'')
           | Inr (Some i) \<Rightarrow>
               let format = Formats video ! i;
                   fileName = sanitizeFileName (VideoTitle video);
                   fileExt = getFileExtension config format;
                   filePath = Join w (OutputDir config) (fileName @ fileExt)
               in (case GetStream w video format of
                     Inl err \<Rightarrow> Inr (Some (''failed to get stream: '' @ err))
                   | Inr stream \<Rightarrow>
                       (case Create w filePath of
                          Some err \<Rightarrow> Inr (Some (''failed to create file: '' @ err))
                        | None \<Rightarrow>
                            (case ReadFrom w filePath stream of
                               Some err \<Rightarrow> Inr (Some (''failed to save video: '' @ err))
                             | None \<Rightarrow> Inr None)))))"

section \<open>Playlist orchestrator (main.go, DownloadPlaylist)\<close>

text \<open>
  The goroutines of \<^verbatim>\<open>DownloadPlaylist\<close> run interleaved. A worker goroutine is at one
  of these points:
  \<^item> \<open>Downloading\<close>: started, \<^verbatim>\<open>pd.DownloadVideo(v.ID)\<close> not yet returned;
  \<^item> \<open>Failed\<close>: the call returned an error, \<^verbatim>\<open>append\<close> not yet begun;
  \<^item> \<open>Appending old\<close>: \<^verbatim>\<open>append(failedDownloads, v.Title)\<close> has read the slice \<open>old\<close>
    and has not yet stored its result in \<^verbatim>\<open>failedDownloads\<close>;
  \<^item> \<open>Releasing\<close>: the body is over, the deferred \<^verbatim>\<open><-semaphore\<close> is next;
  \<^item> \<open>Finishing\<close>: the deferred \<^verbatim>\<open>wg.Done()\<close> is next;
  \<^item> \<open>Done\<close>: the goroutine has ended.
  The code takes no lock around the append (the field \<^verbatim>\<open>mutex\<close> of
  \<^verbatim>\<open>PlaylistDownloader\<close> is never used), so the read and the store of the shared
  slice are two steps that other goroutines can come between. A slice is modelled by
  the list of its elements: the store writes the list that was read, extended by the
  title.
\<close>

datatype pc = Downloading | Failed | Appending "string list" | Releasing | Finishing | Done

text \<open>
  The state shared by the goroutines: the items the \<^verbatim>\<open>range\<close> loop has not reached,
  the number of tokens in the channel \<^verbatim>\<open>semaphore\<close>, the counter of the wait group,
  the slice \<^verbatim>\<open>failedDownloads\<close>, the worker goroutines in launch order, whether
  \<^verbatim>\<open>wg.Wait()\<close> has returned, and a panic if one was raised. \<open>calls\<close> records the
  arguments of the calls of \<^verbatim>\<open>DownloadVideo\<close> in the order they were made.
\<close>

record state =
  pending :: "PlaylistEntry list"
  semaphore :: nat
  wg :: nat
  failedDownloads :: "string list"
  workers :: "(PlaylistEntry \<times> pc) list"
  returned :: bool
  crashed :: "panic option"
  calls :: "string list"

definition initState :: "PlaylistEntry list \<Rightarrow> state" where
  "initState videos =
     \<lparr>pending = videos, semaphore = 0, wg = 0, failedDownloads = [], workers = [],
      returned = False, crashed = None, calls = []\<rparr>"

text \<open>
  One step of the main goroutine. In the loop it is
  \<^verbatim>\<open>wg.Add(1); semaphore <- struct{}{}; go func(...){...}(i, video)\<close>, which can
  proceed only while the channel holds fewer than \<open>Parallel\<close> tokens (the send
  blocks otherwise; with capacity 0 it needs a receiver, and none exists before the
  first launch). After the loop it is \<^verbatim>\<open>wg.Wait()\<close>, which returns once the counter
  is zero.
\<close>

definition stepMain :: "int \<Rightarrow> state \<Rightarrow> state option" where
  "stepMain parallel s =
     (case pending s of
        v # vs \<Rightarrow>
          if int (semaphore s) < parallel
          then Some (s\<lparr>pending := vs, wg := wg s + 1, semaphore := semaphore s + 1,
                        workers := workers s @ [(v, Downloading)]\<rparr>)
          else None
      | [] \<Rightarrow> if wg s = 0 then Some (s\<lparr>returned := True\<rparr>) else None)"

text \<open>
  One step of worker \<open>k\<close>; \<open>download\<close> is \<^verbatim>\<open>pd.DownloadVideo\<close>. \<^verbatim>\<open>wg.Done()\<close> on a zero
  counter panics.
\<close>

definition stepWorker :: "(string \<Rightarrow> panic + string option) \<Rightarrow> nat \<Rightarrow> state \<Rightarrow> state option" where
  "stepWorker download k s =
     (if k < length (workers s) then
        (case workers s ! k of
           (v, Downloading) \<Rightarrow>
             (case download (ID v) of
                Inl p \<Rightarrow> Some (s\<lparr>crashed := Some p, calls := calls s @ [ID v]\<rparr>)
              | Inr None \<Rightarrow>
                  Some (s\<lparr>workers := (workers s)[k := (v, Releasing)],
                          calls := calls s @ [ID v]\<rparr>)
              | Inr (Some err) \<Rightarrow>
                  Some (s\<lparr>workers := (workers s)[k := (v, Failed)],
                          calls := calls s @ [ID v]\<rparr>))
         | (v, Failed) \<Rightarrow>
             Some (s\<lparr>workers := (workers s)[k := (v, Appending (failedDownloads s))]\<rparr>)
         | (v, Appending old) \<Rightarrow>
             Some (s\<lparr>failedDownloads := old @ [Title v],
                     workers := (workers s)[k := (v, Releasing)]\<rparr>)
         | (v, Releasing) \<Rightarrow>
             if 0 < semaphore s
             then Some (s\<lparr>semaphore := semaphore s - 1,
                           workers := (workers s)[k := (v, Finishing)]\<rparr>)
             else None
         | (v, Finishing) \<Rightarrow>
             if 0 < wg s
             then Some (s\<lparr>wg := wg s - 1, workers := (workers s)[k := (v, Done)]\<rparr>)
             else Some (s\<lparr>crashed := Some NegativeWaitGroupCounter\<rparr>)
         | (v, Done) \<Rightarrow> None)
      else None)"

text \<open>
  A step of the program: the scheduler picks a goroutine. Nothing runs once
  \<^verbatim>\<open>DownloadPlaylist\<close> has returned or a goroutine has panicked. \<open>None\<close>: the chosen
  goroutine cannot take a step (it is blocked, ended or not yet launched).
\<close>

datatype tid = MainG | Worker nat

definition step :: "int \<Rightarrow> (string \<Rightarrow> panic + string option) \<Rightarrow> tid \<Rightarrow> state \<Rightarrow> state option" where
  "step parallel download t s =
     (if returned s \<or> crashed s \<noteq> None then None
      else (case t of MainG \<Rightarrow> stepMain parallel s | Worker k \<Rightarrow> stepWorker download k s))"

text \<open>A schedule is the list of the scheduler's choices; \<open>run\<close> follows it.\<close>

fun run :: "int \<Rightarrow> (string \<Rightarrow> panic + string option) \<Rightarrow> tid list \<Rightarrow> state \<Rightarrow> state option" where
  "run parallel download [] s = Some s"
| "run parallel download (t # ts) s =
     (case step parallel download t s of
        None \<Rightarrow> None
      | Some s' \<Rightarrow> run parallel download ts s')"

text \<open>The numbers and titles of the summary that \<^verbatim>\<open>DownloadPlaylist\<close> prints.\<close>

record summary =
  total :: int
  successful :: int
  failed :: int
  failedTitles :: "string list"

definition printSummary :: "PlaylistEntry list \<Rightarrow> string list \<Rightarrow> summary" where
  "printSummary videos titles =
     \<lparr>total = int (length videos),
      successful = int (length videos) - int (length titles),
      failed = int (length titles),
      failedTitles = titles\<rparr>"

text \<open>
  \<^verbatim>\<open>DownloadPlaylist\<close> under a schedule: the error it returns, the summary it prints
  before returning nil, a panic (\<^verbatim>\<open>make(chan struct{}, n)\<close> panics for a negative
  \<open>n\<close>), the state reached when the schedule ends before the function returns, or
  \<open>NoSuchRun\<close> when the schedule picks a goroutine that cannot step.
\<close>

datatype result =
  ReturnedError string | ReturnedNil summary | Panicked panic | Running state | NoSuchRun

definition DownloadPlaylist ::
    "world \<Rightarrow> DownloadConfig \<Rightarrow> string \<Rightarrow> tid list \<Rightarrow> result" where
  "DownloadPlaylist w config playlistURL schedule =
     (case GetPlaylist w playlistURL of
        Inl err \<Rightarrow> ReturnedError (''failed to get playlist: '' @ err)
      | Inr playlist \<Rightarrow>
          (case MkdirAll w (OutputDir config) of
             Some err \<Rightarrow> ReturnedError (''failed to create output directory: '' @ err)
           | None \<Rightarrow>
               if Parallel config < 0 then Panicked MakechanSizeOutOfRange
               else
                 (case run (Parallel config) (DownloadVideo w config) schedule
                         (initState (Videos playlist)) of
                    None \<Rightarrow> NoSuchRun
                  | Some s \<Rightarrow>
                      (case crashed s of
                         Some p \<Rightarrow> Panicked p
                       | None \<Rightarrow>
                           if returned s
                           then ReturnedNil (printSummary (Videos playlist) (failedDownloads s))
                           else Running s))))"

section \<open>Command line (main.go, main)\<close>

text \<open>
  \<^verbatim>\<open>strconv.Atoi\<close> on a platform whose \<^verbatim>\<open>int\<close> has 64 bits: an optional sign, then one
  or more decimal digits, and a value that fits; \<open>None\<close> is a non-nil error.
\<close>

definition isDigit :: "char \<Rightarrow> bool" where
  "isDigit c = (48 \<le> byte c \<and> byte c \<le> 57)"

definition Atoi :: "string \<Rightarrow> int option" where
  "Atoi s =
     (let neg = (s \<noteq> [] \<and> hd s = CHR ''-'');
          ds = (if s \<noteq> [] \<and> (hd s = CHR ''-'' \<or> hd s = CHR ''+'') then tl s else s)
      in if ds = [] \<or> \<not> list_all isDigit ds then None
         else
           let n = foldl (\<lambda>n c. n * 10 + (int (byte c) - 48)) 0 ds;
               v = (if neg then - n else n)
           in if v < - (2 ^ 63) \<or> 2 ^ 63 - 1 < v then None else Some v)"

text \<open>
  The loop \<^verbatim>\<open>for i := 2; i < len(os.Args); i++\<close> over the options; the argument list
  is \<^verbatim>\<open>os.Args[i:]\<close>. An option that is last has no value and is skipped; a value of
  \<^verbatim>\<open>-p\<close> that \<open>Atoi\<close> rejects is skipped as well and leaves \<open>Parallel\<close> as it was.
\<close>

fun parseArgs :: "string list \<Rightarrow> DownloadConfig \<Rightarrow> DownloadConfig" where
  "parseArgs [] config = config"
| "parseArgs [a] config = config"
| "parseArgs (a # v # rest) config =
     (if a = ''-o'' \<or> a = ''--output'' then parseArgs rest (config\<lparr>OutputDir := v\<rparr>)
      else if a = ''-t'' \<or> a = ''--type'' then parseArgs rest (config\<lparr>DownloadType := v\<rparr>)
      else if a = ''-p'' \<or> a = ''--parallel'' then
        (case Atoi v of
           Some parallel \<Rightarrow> parseArgs rest (config\<lparr>Parallel := parallel\<rparr>)
         | None \<Rightarrow> parseArgs rest config)
      else parseArgs (v # rest) config)"

definition defaultConfig :: DownloadConfig where
  "defaultConfig =
     \<lparr>OutputDir = ''./downloads'', DownloadType = ''video'', MaxQuality = [], Parallel = 3\<rparr>"

text \<open>
  \<open>parsedConfig\<close> is the configuration \<^verbatim>\<open>main\<close> holds after the loop over the options.
  How \<^verbatim>\<open>main\<close> ends under a schedule: with the usage text, with the message about the
  download type, with \<^verbatim>\<open>log.Fatal\<close>, by returning after the summary, by a panic, or
  not yet (\<open>Unfinished\<close>); \<open>Impossible\<close> stands for a schedule that is not a run.
\<close>

datatype ending =
  Usage | BadType | Fatal string | Completed summary | Crash panic | Unfinished | Impossible

definition parsedConfig :: "string list \<Rightarrow> DownloadConfig" where
  "parsedConfig args = parseArgs (drop 2 args) defaultConfig"

definition main :: "string list \<Rightarrow> world \<Rightarrow> tid list \<Rightarrow> ending" where
  "main args w schedule =
     (if length args < 2 then Usage
      else
        let playlistURL = args ! 1;
            config = parsedConfig args
        in if DownloadType config \<noteq> ''audio'' \<and> DownloadType config \<noteq> ''video'' then BadType
           else
             (case DownloadPlaylist w config playlistURL schedule of
                ReturnedError err \<Rightarrow> Fatal err
              | ReturnedNil sm \<Rightarrow> Completed sm
              | Panicked p \<Rightarrow> Crash p
              | Running s \<Rightarrow> Unfinished
              | NoSuchRun \<Rightarrow> Impossible))"

text \<open>
  The exit code of the process: \<^verbatim>\<open>os.Exit(1)\<close> and \<^verbatim>\<open>log.Fatal\<close> give 1, a return
  from \<^verbatim>\<open>main\<close> gives 0, and a panic that nothing recovers gives 2.
\<close>

fun exitCode :: "ending \<Rightarrow> int option" where
  "exitCode Usage = Some 1"
| "exitCode BadType = Some 1"
| "exitCode (Fatal err) = Some 1"
| "exitCode (Completed sm) = Some 0"
| "exitCode (Crash p) = Some 2"
| "exitCode Unfinished = None"
| "exitCode Impossible = None"

section \<open>Invariants of the orchestrator\<close>

text \<open>
  A worker holds a token of the gate from its launch (the main goroutine sends the
  token just before the \<^verbatim>\<open>go\<close> statement) until its deferred receive.
\<close>

fun inGate :: "pc \<Rightarrow> bool" where
  "inGate Downloading = True"
| "inGate Failed = True"
| "inGate (Appending old) = True"
| "inGate Releasing = True"
| "inGate Finishing = False"
| "inGate Done = False"

definition admitted :: "state \<Rightarrow> nat" where
  "admitted s = length (filter (\<lambda>w. inGate (snd w)) (workers s))"

definition unfinished :: "state \<Rightarrow> nat" where
  "unfinished s = length (filter (\<lambda>w. snd w \<noteq> Done) (workers s))"

definition called :: "state \<Rightarrow> string list" where
  "called s = map (\<lambda>w. ID (fst w)) (filter (\<lambda>w. snd w \<noteq> Downloading) (workers s))"

definition inv :: "int \<Rightarrow> PlaylistEntry list \<Rightarrow> state \<Rightarrow> bool" where
  "inv parallel videos s =
     (semaphore s = admitted s
      \<and> (semaphore s = 0 \<or> int (semaphore s) \<le> parallel)
      \<and> wg s = unfinished s
      \<and> map fst (workers s) @ pending s = videos
      \<and> (\<not> returned s \<or> pending s = [] \<and> unfinished s = 0)
      \<and> (crashed s \<noteq> None \<or> mset (calls s) = mset (called s)))"

lemma length_filter_update:
  "k < length xs \<Longrightarrow>
     length (filter Q (xs[k := y])) + (if Q (xs ! k) then 1 else 0)
       = length (filter Q xs) + (if Q y then 1 else 0)"
proof (induction xs arbitrary: k)
  case Nil
  then show ?case by simp
next
  case (Cons x xs)
  show ?case
  proof (cases k)
    case 0
    then show ?thesis by simp
  next
    case (Suc j)
    then have "j < length xs" using Cons.prems by simp
    then show ?thesis using Cons.IH [of j] Suc by simp
  qed
qed

lemma mset_map_filter_update:
  "k < length xs \<Longrightarrow>
     mset (map f (filter Q (xs[k := y]))) + (if Q (xs ! k) then {#f (xs ! k)#} else {#})
       = mset (map f (filter Q xs)) + (if Q y then {#f y#} else {#})"
proof (induction xs arbitrary: k)
  case Nil
  then show ?case by simp
next
  case (Cons x xs)
  show ?case
  proof (cases k)
    case 0
    then show ?thesis by simp
  next
    case (Suc j)
    then have "j < length xs" using Cons.prems by simp
    then have ih: "mset (map f (filter Q (xs[j := y]))) + (if Q (xs ! j) then {#f (xs ! j)#} else {#})
       = mset (map f (filter Q xs)) + (if Q y then {#f y#} else {#})" by (rule Cons.IH)
    show ?thesis
    proof (cases "Q x")
      case True
      have "mset (map f (filter Q ((x # xs)[k := y]))) + (if Q ((x # xs) ! k) then {#f ((x # xs) ! k)#} else {#})
        = add_mset (f x) (mset (map f (filter Q (xs[j := y]))) + (if Q (xs ! j) then {#f (xs ! j)#} else {#}))"
        using True Suc by simp
      also have "\<dots> = add_mset (f x) (mset (map f (filter Q xs)) + (if Q y then {#f y#} else {#}))"
        unfolding ih ..
      also have "\<dots> = mset (map f (filter Q (x # xs))) + (if Q y then {#f y#} else {#})"
        using True by simp
      finally show ?thesis .
    next
      case False
      have "mset (map f (filter Q ((x # xs)[k := y]))) + (if Q ((x # xs) ! k) then {#f ((x # xs) ! k)#} else {#})
        = mset (map f (filter Q (xs[j := y]))) + (if Q (xs ! j) then {#f (xs ! j)#} else {#})"
        using False Suc by simp
      also have "\<dots> = mset (map f (filter Q xs)) + (if Q y then {#f y#} else {#})"
        by (rule ih)
      also have "\<dots> = mset (map f (filter Q (x # xs))) + (if Q y then {#f y#} else {#})"
        using False by simp
      finally show ?thesis .
    qed
  qed
qed

lemma map_fst_update:
  "k < length xs \<Longrightarrow> fst (xs ! k) = v \<Longrightarrow> map fst (xs[k := (v, p)]) = map fst xs"
  by (simp add: map_update) (metis list_update_id nth_map)

text \<open>How a worker's move from one point to another changes the three counts.\<close>

lemma admitted_update:
  assumes "k < length (workers s)" and "workers s ! k = (v, p)"
    and "workers s' = (workers s)[k := (v, q)]"
  shows "admitted s' + (if inGate p then 1 else 0) = admitted s + (if inGate q then 1 else 0)"
  using length_filter_update [OF assms(1), of "\<lambda>w. inGate (snd w)" "(v, q)"] assms(2,3)
  by (simp add: admitted_def)

lemma unfinished_update:
  assumes "k < length (workers s)" and "workers s ! k = (v, p)"
    and "workers s' = (workers s)[k := (v, q)]"
  shows "unfinished s' + (if p \<noteq> Done then 1 else 0)
    = unfinished s + (if q \<noteq> Done then 1 else 0)"
  using length_filter_update [OF assms(1), of "\<lambda>w. snd w \<noteq> Done" "(v, q)"] assms(2,3)
  by (simp add: unfinished_def)

lemma called_update:
  assumes "k < length (workers s)" and "workers s ! k = (v, p)"
    and "workers s' = (workers s)[k := (v, q)]"
  shows "mset (called s') + (if p \<noteq> Downloading then {#ID v#} else {#})
    = mset (called s) + (if q \<noteq> Downloading then {#ID v#} else {#})"
proof -
  let ?F = "\<lambda>w::PlaylistEntry \<times> pc. ID (fst w)"
  let ?Q = "\<lambda>w::PlaylistEntry \<times> pc. snd w \<noteq> Downloading"
  have e: "called s' = map ?F (filter ?Q ((workers s)[k := (v, q)]))"
    by (simp add: called_def assms(3))
  have u: "mset (map ?F (filter ?Q ((workers s)[k := (v, q)])))
        + (if p \<noteq> Downloading then {#ID v#} else {#})
      = mset (map ?F (filter ?Q (workers s))) + (if q \<noteq> Downloading then {#ID v#} else {#})"
    using mset_map_filter_update [OF assms(1), of ?F ?Q "(v, q)"] unfolding assms(2)
    by (simp only: fst_conv snd_conv)
  have c: "called s = map ?F (filter ?Q (workers s))" by (simp add: called_def)
  show ?thesis by (simp only: e c u)
qed

lemma entries_update:
  assumes "k < length (workers s)" and "workers s ! k = (v, p)"
    and "workers s' = (workers s)[k := (v, q)]"
  shows "map fst (workers s') = map fst (workers s)"
  using assms by (simp add: map_fst_update)



lemma unfinished_zero:
  "unfinished s = 0 \<longleftrightarrow> (\<forall>w\<in>set (workers s). snd w = Done)"
  by (auto simp: unfinished_def filter_empty_conv)

subsection \<open>The invariant holds along every run\<close>

lemma inv_initState: "inv parallel videos (initState videos)"
  by (simp add: inv_def initState_def admitted_def unfinished_def called_def)

lemma stepMain_inv:
  assumes i: "inv parallel videos s" and nr: "\<not> returned s"
    and st: "stepMain parallel s = Some s'"
  shows "inv parallel videos s'"
proof (cases "pending s")
  case Nil
  then have "wg s = 0" and s': "s' = s\<lparr>returned := True\<rparr>"
    using st by (auto simp: stepMain_def split: if_splits)
  then show ?thesis using i Nil by (auto simp: inv_def admitted_def unfinished_def called_def)
next
  case (Cons v vs)
  then have lt: "int (semaphore s) < parallel"
    and s': "s' = s\<lparr>pending := vs, wg := wg s + 1, semaphore := semaphore s + 1,
        workers := workers s @ [(v, Downloading)]\<rparr>"
    using st by (auto simp: stepMain_def split: if_splits)
  show ?thesis
    using i nr lt Cons unfolding s' by (auto simp: inv_def admitted_def unfinished_def called_def)
qed

lemma stepWorker_inv:
  assumes i: "inv parallel videos s" and nr: "\<not> returned s"
    and st: "stepWorker download k s = Some s'"
  shows "inv parallel videos s'"
proof -
  have k: "k < length (workers s)" using st by (auto simp: stepWorker_def split: if_splits)
  obtain v p where w: "workers s ! k = (v, p)" by (cases "workers s ! k")
  have sem: "semaphore s = admitted s" and bound: "semaphore s = 0 \<or> int (semaphore s) \<le> parallel"
    and cnt: "wg s = unfinished s" and ent: "map fst (workers s) @ pending s = videos"
    and log: "crashed s \<noteq> None \<or> mset (calls s) = mset (called s)"
    using i unfolding inv_def by blast+
  show ?thesis
  proof (cases p)
    case Downloading
    show ?thesis
    proof (cases "download (ID v)")
      case (Inl pn)
      then have s': "s' = s\<lparr>crashed := Some pn, calls := calls s @ [ID v]\<rparr>"
        using st k w Downloading by (simp add: stepWorker_def)
      show ?thesis using i nr unfolding s'
        by (auto simp: inv_def admitted_def unfinished_def called_def)
    next
      case (Inr r)
      define q where "q = (case r of None \<Rightarrow> Releasing | Some err \<Rightarrow> Failed)"
      have s': "s' = s\<lparr>workers := (workers s)[k := (v, q)], calls := calls s @ [ID v]\<rparr>"
        using st k w Downloading Inr by (cases r) (simp_all add: stepWorker_def q_def)
      have q: "inGate q" "q \<noteq> Done" "q \<noteq> Downloading" by (cases r; simp add: q_def)+
      have ws: "workers s' = (workers s)[k := (v, q)]" unfolding s' by simp
      have "admitted s' = admitted s" "unfinished s' = unfinished s"
        "mset (called s') = mset (called s) + {#ID v#}"
        "map fst (workers s') = map fst (workers s)"
        using admitted_update [OF k w ws] unfinished_update [OF k w ws]
          called_update [OF k w ws] entries_update [OF k w ws] q Downloading
        by simp_all
      then show ?thesis using sem bound cnt ent log nr unfolding inv_def
        by (auto simp: s')
    qed
  next
    case Failed
    then have s': "s' = s\<lparr>workers := (workers s)[k := (v, Appending (failedDownloads s))]\<rparr>"
      using st k w by (simp add: stepWorker_def)
    have ws: "workers s' = (workers s)[k := (v, Appending (failedDownloads s))]"
      unfolding s' by simp
    have "admitted s' = admitted s" "unfinished s' = unfinished s"
      "mset (called s') = mset (called s)" "map fst (workers s') = map fst (workers s)"
      using admitted_update [OF k w ws] unfinished_update [OF k w ws]
        called_update [OF k w ws] entries_update [OF k w ws] Failed
      by simp_all
    then show ?thesis using sem bound cnt ent log nr unfolding inv_def by (auto simp: s')
  next
    case (Appending old)
    then have s': "s' = s\<lparr>failedDownloads := old @ [Title v],
        workers := (workers s)[k := (v, Releasing)]\<rparr>"
      using st k w by (simp add: stepWorker_def)
    have ws: "workers s' = (workers s)[k := (v, Releasing)]" unfolding s' by simp
    have "admitted s' = admitted s" "unfinished s' = unfinished s"
      "mset (called s') = mset (called s)" "map fst (workers s') = map fst (workers s)"
      using admitted_update [OF k w ws] unfinished_update [OF k w ws]
        called_update [OF k w ws] entries_update [OF k w ws] Appending
      by simp_all
    then show ?thesis using sem bound cnt ent log nr unfolding inv_def by (auto simp: s')
  next
    case Releasing
    then have pos: "0 < semaphore s"
      and s': "s' = s\<lparr>semaphore := semaphore s - 1,
        workers := (workers s)[k := (v, Finishing)]\<rparr>"
      using st k w by (auto simp: stepWorker_def split: if_splits)
    have ws: "workers s' = (workers s)[k := (v, Finishing)]" unfolding s' by simp
    have "admitted s' + 1 = admitted s" "unfinished s' = unfinished s"
      "mset (called s') = mset (called s)" "map fst (workers s') = map fst (workers s)"
      using admitted_update [OF k w ws] unfinished_update [OF k w ws]
        called_update [OF k w ws] entries_update [OF k w ws] Releasing
      by simp_all
    then show ?thesis using sem bound cnt ent log nr pos unfolding inv_def
      by (auto simp: s')
  next
    case Finishing
    show ?thesis
    proof (cases "0 < wg s")
      case True
      then have s': "s' = s\<lparr>wg := wg s - 1, workers := (workers s)[k := (v, Done)]\<rparr>"
        using st k w Finishing by (simp add: stepWorker_def)
      have ws: "workers s' = (workers s)[k := (v, Done)]" unfolding s' by simp
      have "admitted s' = admitted s" "unfinished s' + 1 = unfinished s"
        "mset (called s') = mset (called s)" "map fst (workers s') = map fst (workers s)"
        using admitted_update [OF k w ws] unfinished_update [OF k w ws]
          called_update [OF k w ws] entries_update [OF k w ws] Finishing
        by simp_all
      then show ?thesis using sem bound cnt ent log nr True unfolding inv_def
        by (auto simp: s')
    next
      case False
      then have s': "s' = s\<lparr>crashed := Some NegativeWaitGroupCounter\<rparr>"
        using st k w Finishing by (simp add: stepWorker_def)
      show ?thesis using i nr unfolding s'
        by (auto simp: inv_def admitted_def unfinished_def called_def)
    qed
  next
    case Done
    then show ?thesis using st k w by (simp add: stepWorker_def)
  qed
qed

lemma step_inv:
  assumes "inv parallel videos s" and "step parallel download t s = Some s'"
  shows "inv parallel videos s'"
proof -
  have nr: "\<not> returned s" using assms(2) by (auto simp: step_def split: if_splits)
  show ?thesis
  proof (cases t)
    case MainG
    then have "stepMain parallel s = Some s'"
      using assms(2) by (auto simp: step_def split: if_splits)
    with assms(1) nr show ?thesis by (rule stepMain_inv)
  next
    case (Worker k)
    then have "stepWorker download k s = Some s'"
      using assms(2) by (auto simp: step_def split: if_splits)
    with assms(1) nr show ?thesis by (rule stepWorker_inv)
  qed
qed

lemma run_inv:
  "inv parallel videos s \<Longrightarrow> run parallel download schedule s = Some s'
     \<Longrightarrow> inv parallel videos s'"
proof (induction schedule arbitrary: s)
  case Nil
  then show ?case by simp
next
  case (Cons t ts)
  then obtain s1 where s1: "step parallel download t s = Some s1"
    and r: "run parallel download ts s1 = Some s'"
    by (auto split: option.splits)
  have "inv parallel videos s1" using Cons.prems(1) s1 by (rule step_inv)
  then show ?case using r by (rule Cons.IH)
qed

lemma reachable_inv:
  "run parallel download schedule (initState videos) = Some s \<Longrightarrow> inv parallel videos s"
  using inv_initState by (rule run_inv)

subsection \<open>No deadlock, and every run ends\<close>












section \<open>Claims about the orchestrator and the command line\<close>

text \<open>Example playlists and worlds.\<close>

definition entryA :: PlaylistEntry where
  "entryA = \<lparr>ID = ''a'', Title = ''Title A''\<rparr>"

definition entryB :: PlaylistEntry where
  "entryB = \<lparr>ID = ''b'', Title = ''Title B''\<rparr>"

definition tenVideos :: "PlaylistEntry list" where
  "tenVideos = map (\<lambda>c. \<lparr>ID = [c], Title = ''Title '' @ [c]\<rparr>) ''0123456789''"

text \<open>A world in which the metadata of every video is unavailable.\<close>

definition failingWorld :: "PlaylistEntry list \<Rightarrow> world" where
  "failingWorld videos =
     \<lparr>GetPlaylist = (\<lambda>url. Inr \<lparr>PlaylistTitle = ''list'', Videos = videos\<rparr>),
      MkdirAll = (\<lambda>dir. None),
      GetVideo = (\<lambda>videoID. Inl ''unavailable''),
      GetStream = (\<lambda>video format. Inl ''no stream''),
      Create = (\<lambda>path. None),
      ReadFrom = (\<lambda>path stream. None),
      Join = (\<lambda>dir file. dir @ ''/'' @ file)\<rparr>"


definition config2 :: DownloadConfig where
  "config2 = parseArgs [''-p'', ''2''] defaultConfig"

text \<open>
  Two launches, both downloads, both reads of the slice, both stores, then the
  deferred calls and the return of \<^verbatim>\<open>wg.Wait()\<close>.
\<close>

definition raceSchedule :: "tid list" where
  "raceSchedule =
     [MainG, MainG, Worker 0, Worker 1, Worker 0, Worker 1, Worker 0, Worker 1,
      Worker 0, Worker 0, Worker 1, Worker 1, MainG]"


subsection \<open>The gate bounds the running downloads\<close>

text \<open>
  Claim C6. For every playlist, every pool size \<open>P \<ge> 1\<close> and every interleaving of the
  goroutines, at most \<open>P\<close> items are between the acquisition of a gate token and its
  release, at every point of the run.
\<close>

theorem C6_concurrency_bound:
  assumes "1 \<le> parallel"
    and "run parallel download schedule (initState videos) = Some s"
  shows "int (admitted s) \<le> parallel \<and> semaphore s = admitted s"
proof -
  have "inv parallel videos s" using assms(2) by (rule reachable_inv)
  then have "semaphore s = admitted s" and "semaphore s = 0 \<or> int (semaphore s) \<le> parallel"
    unfolding inv_def by blast+
  then show ?thesis using assms(1) by auto
qed

text \<open>
  With \<open>P = 2\<close> and ten items, two launches put two items behind the gate, and a third
  launch cannot happen before one of them releases its token.
\<close>

theorem C6_concurrency_bound_witness:
  "(1::int) \<le> 2
   \<and> run 2 (DownloadVideo (failingWorld tenVideos) config2) [MainG, MainG]
        (initState tenVideos) \<noteq> None
   \<and> int (admitted (the (run 2 (DownloadVideo (failingWorld tenVideos) config2)
        [MainG, MainG] (initState tenVideos)))) \<le> 2
   \<and> admitted (the (run 2 (DownloadVideo (failingWorld tenVideos) config2)
        [MainG, MainG] (initState tenVideos))) = 2
   \<and> run 2 (DownloadVideo (failingWorld tenVideos) config2) [MainG, MainG, MainG]
        (initState tenVideos) = None"
proof -
  let ?r = "run 2 (DownloadVideo (failingWorld tenVideos) config2) [MainG, MainG]
    (initState tenVideos)"
  have ne: "?r \<noteq> None" by code_simp
  then have r: "?r = Some (the ?r)" by simp
  have b: "int (admitted (the ?r)) \<le> 2"
    using C6_concurrency_bound [of 2, OF _ r] by simp
  have two: "admitted (the ?r) = 2" by code_simp
  have blocked: "run 2 (DownloadVideo (failingWorld tenVideos) config2) [MainG, MainG, MainG]
      (initState tenVideos) = None"
    by code_simp
  show ?thesis using ne b two blocked by simp
qed

subsection \<open>Failures of single items\<close>










subsection \<open>The append to the shared slice\<close>

text \<open>
  Claim C5 does not hold of the code. With a pool of two workers and two items whose
  downloads fail, the run below brings both workers between their read of
  \<^verbatim>\<open>failedDownloads\<close> and the store of the appended slice: each has read the empty
  slice, and nothing keeps the second out while the first is there.
\<close>

theorem C5_append_not_exclusive:
  "map_option workers
     (run 2 (DownloadVideo (failingWorld [entryA, entryB]) config2) (take 6 raceSchedule)
        (initState [entryA, entryB]))
   = Some [(entryA, Appending []), (entryB, Appending [])]"
  by code_simp

text \<open>
  Claim C4 does not hold of the code, for the same reason. Continued to its end, that
  run stores the two appended slices one over the other: both downloads have failed,
  and the summary counts one failure and one success and lists one title.
\<close>

theorem C4_lost_failure:
  "DownloadVideo (failingWorld [entryA, entryB]) config2 ''a''
     = Inr (Some ''failed to get video info: unavailable'')
   \<and> DownloadVideo (failingWorld [entryA, entryB]) config2 ''b''
     = Inr (Some ''failed to get video info: unavailable'')
   \<and> main [''prog'', ''PL'', ''-p'', ''2''] (failingWorld [entryA, entryB]) raceSchedule
     = Completed \<lparr>total = 2, successful = 1, failed = 1, failedTitles = [''Title B'']\<rparr>"
  by code_simp

subsection \<open>A pool of one worker\<close>

text \<open>
  With \<open>Parallel = 1\<close> the gate itself keeps the appends apart: only the worker
  launched last can hold the token, so nothing comes between its read of the slice
  and its store, and the summary is exact.
\<close>

definition failing :: "(string \<Rightarrow> panic + string option) \<Rightarrow> PlaylistEntry \<Rightarrow> bool" where
  "failing download v = (\<exists>err. download (ID v) = Inr (Some err))"

fun pastAppend :: "pc \<Rightarrow> bool" where
  "pastAppend Releasing = True"
| "pastAppend Finishing = True"
| "pastAppend Done = True"
| "pastAppend Downloading = False"
| "pastAppend Failed = False"
| "pastAppend (Appending old) = False"

definition recorded :: "(string \<Rightarrow> panic + string option) \<Rightarrow> (PlaylistEntry \<times> pc) list \<Rightarrow> string list" where
  "recorded download ws =
     map Title (filter (failing download) (map fst (filter (\<lambda>w. pastAppend (snd w)) ws)))"

definition serial :: "(string \<Rightarrow> panic + string option) \<Rightarrow> state \<Rightarrow> bool" where
  "serial download s =
     ((\<forall>w\<in>set (butlast (workers s)). \<not> inGate (snd w))
      \<and> failedDownloads s = recorded download (workers s)
      \<and> (\<forall>w\<in>set (workers s). \<forall>old. snd w = Appending old \<longrightarrow> old = failedDownloads s)
      \<and> (\<forall>w\<in>set (workers s). snd w = Failed \<or> (\<exists>old. snd w = Appending old)
            \<longrightarrow> failing download (fst w)))"

lemma map_fst_filter_update:
  "k < length ws \<Longrightarrow> ws ! k = (v, p) \<Longrightarrow> Q p = Q q \<Longrightarrow>
     map fst (filter (\<lambda>w. Q (snd w)) (ws[k := (v, q)])) = map fst (filter (\<lambda>w. Q (snd w)) ws)"
proof (induction ws arbitrary: k)
  case Nil
  then show ?case by simp
next
  case (Cons x xs)
  show ?case
  proof (cases k)
    case 0
    then show ?thesis using Cons.prems by auto
  next
    case (Suc j)
    then show ?thesis using Cons.prems Cons.IH [of j] by simp
  qed
qed

lemma recorded_same:
  "k < length ws \<Longrightarrow> ws ! k = (v, p) \<Longrightarrow> pastAppend p = pastAppend q \<Longrightarrow>
     recorded download (ws[k := (v, q)]) = recorded download ws"
  by (simp add: recorded_def map_fst_filter_update)

lemma last_worker:
  assumes g: "\<forall>w\<in>set (butlast ws). \<not> inGate (snd w)"
    and k: "k < length ws" and w: "ws ! k = (v, p)" and p: "inGate p"
  shows "ws = butlast ws @ [(v, p)] \<and> ws[k := (v, q)] = butlast ws @ [(v, q)]"
proof -
  have ne: "ws \<noteq> []" using k by auto
  have "k = length ws - 1"
  proof (rule ccontr)
    assume "k \<noteq> length ws - 1"
    then have "k < length (butlast ws)" using k by simp
    then have "butlast ws ! k \<in> set (butlast ws)" by (rule nth_mem)
    moreover have "butlast ws ! k = ws ! k"
      using \<open>k < length (butlast ws)\<close> by (rule nth_butlast)
    ultimately show False using g w p by auto
  qed
  then have kl: "k = length (butlast ws)" by simp
  have l: "last ws = (v, p)" using ne w \<open>k = length ws - 1\<close> by (simp add: last_conv_nth)
  have a: "ws = butlast ws @ [(v, p)]" using ne l by (metis append_butlast_last_id)
  have u: "(B @ [(v, p)])[length B := (v, q)] = B @ [(v, q)]"
    for B
    by simp
  have "ws[k := (v, q)] = (butlast ws @ [(v, p)])[k := (v, q)]"
    using a by (rule arg_cong [where f = "\<lambda>xs. xs[k := (v, q)]"])
  also have "\<dots> = butlast ws @ [(v, q)]" using u [of "butlast ws"] by (simp only: kl)
  finally show ?thesis using a by blast
qed


lemma recorded_snoc:
  "recorded download (ws @ [(v, q)]) =
     recorded download ws @ (if pastAppend q \<and> failing download v then [Title v] else [])"
  by (simp add: recorded_def)

lemma serial_initState: "serial download (initState videos)"
  by (simp add: serial_def initState_def recorded_def)

lemma stepMain_serial:
  assumes i: "inv 1 videos s" and x: "serial download s" and st: "stepMain 1 s = Some s'"
  shows "serial download s'"
proof (cases "pending s")
  case Nil
  then have "s' = s\<lparr>returned := True\<rparr>"
    using st by (auto simp: stepMain_def split: if_splits)
  then show ?thesis using x by (auto simp: serial_def)
next
  case (Cons v vs)
  then have z: "semaphore s = 0"
    and s': "s' = s\<lparr>pending := vs, wg := wg s + 1, semaphore := semaphore s + 1,
        workers := workers s @ [(v, Downloading)]\<rparr>"
    using st by (auto simp: stepMain_def split: if_splits)
  have "admitted s = 0" using i z unfolding inv_def by simp
  then have free: "\<forall>w\<in>set (workers s). \<not> inGate (snd w)"
    by (auto simp: admitted_def filter_empty_conv)
  have na: "\<forall>w\<in>set (workers s). snd w \<noteq> Failed \<and> (\<forall>old. snd w \<noteq> Appending old)"
    using free by (metis inGate.simps(2,3))
  show ?thesis
    using x free na unfolding s' serial_def by (auto simp: recorded_snoc)
qed


lemma set_update_cases:
  "w \<in> set (ws[k := y]) \<Longrightarrow> w = y \<or> w \<in> set ws"
  using set_update_subset_insert [of ws k y] by auto

lemma stepWorker_serial:
  assumes x: "serial download s" and st: "stepWorker download k s = Some s'"
  shows "serial download s'"
proof -
  have k: "k < length (workers s)" using st by (auto simp: stepWorker_def split: if_splits)
  obtain v p where w: "workers s ! k = (v, p)" by (cases "workers s ! k")
  have mem: "(v, p) \<in> set (workers s)" using k w by (metis nth_mem)
  have G: "\<forall>w\<in>set (butlast (workers s)). \<not> inGate (snd w)"
    and R: "failedDownloads s = recorded download (workers s)"
    and A: "\<forall>w\<in>set (workers s). \<forall>old. snd w = Appending old \<longrightarrow> old = failedDownloads s"
    and F: "\<forall>w\<in>set (workers s). snd w = Failed \<or> (\<exists>old. snd w = Appending old)
        \<longrightarrow> failing download (fst w)"
    using x unfolding serial_def by blast+
  have last: "inGate p \<Longrightarrow> \<exists>B. workers s = B @ [(v, p)]
      \<and> (\<forall>q. (workers s)[k := (v, q)] = B @ [(v, q)])
      \<and> (\<forall>w\<in>set B. \<not> inGate (snd w))"
    using last_worker [OF G k w] G by blast
  show ?thesis
  proof (cases p)
    case Downloading
    then obtain B where ws: "workers s = B @ [(v, Downloading)]"
      and upd: "\<forall>q. (workers s)[k := (v, q)] = B @ [(v, q)]"
      and gB: "\<forall>w\<in>set B. \<not> inGate (snd w)"
      using last by auto
    have nB: "\<forall>w\<in>set B. snd w \<noteq> Failed \<and> (\<forall>old. snd w \<noteq> Appending old)"
      using gB by (metis inGate.simps(2,3))
    show ?thesis
    proof (cases "download (ID v)")
      case (Inl pn)
      then have "s' = s\<lparr>crashed := Some pn, calls := calls s @ [ID v]\<rparr>"
        using st k w Downloading by (simp add: stepWorker_def)
      then show ?thesis using x by (auto simp: serial_def)
    next
      case (Inr r)
      show ?thesis
      proof (cases r)
        case None
        then have s': "s' = s\<lparr>workers := B @ [(v, Releasing)], calls := calls s @ [ID v]\<rparr>"
          using st k w Downloading Inr upd by (simp add: stepWorker_def)
        have nf: "\<not> failing download v" using Inr None by (simp add: failing_def)
        show ?thesis
          using R gB nB nf unfolding s' serial_def ws by (auto simp: recorded_snoc)
      next
        case (Some err)
        then have s': "s' = s\<lparr>workers := B @ [(v, Failed)], calls := calls s @ [ID v]\<rparr>"
          using st k w Downloading Inr upd by (simp add: stepWorker_def)
        have f: "failing download v" using Inr Some by (simp add: failing_def)
        show ?thesis
          using R gB nB f unfolding s' serial_def ws by (auto simp: recorded_snoc)
      qed
    qed
  next
    case Failed
    then obtain B where ws: "workers s = B @ [(v, Failed)]"
      and upd: "\<forall>q. (workers s)[k := (v, q)] = B @ [(v, q)]"
      and gB: "\<forall>w\<in>set B. \<not> inGate (snd w)"
      using last by auto
    have nB: "\<forall>w\<in>set B. snd w \<noteq> Failed \<and> (\<forall>old. snd w \<noteq> Appending old)"
      using gB by (metis inGate.simps(2,3))
    have s': "s' = s\<lparr>workers := B @ [(v, Appending (failedDownloads s))]\<rparr>"
      using st k w Failed upd by (simp add: stepWorker_def)
    have f: "failing download v" using F mem Failed by auto
    show ?thesis
      using R gB nB f unfolding s' serial_def ws by (auto simp: recorded_snoc)
  next
    case (Appending old)
    then obtain B where ws: "workers s = B @ [(v, Appending old)]"
      and upd: "\<forall>q. (workers s)[k := (v, q)] = B @ [(v, q)]"
      and gB: "\<forall>w\<in>set B. \<not> inGate (snd w)"
      using last by auto
    have nB: "\<forall>w\<in>set B. snd w \<noteq> Failed \<and> (\<forall>old. snd w \<noteq> Appending old)"
      using gB by (metis inGate.simps(2,3))
    have s': "s' = s\<lparr>failedDownloads := old @ [Title v], workers := B @ [(v, Releasing)]\<rparr>"
      using st k w Appending upd by (simp add: stepWorker_def)
    have f: "failing download v" using F mem Appending by auto
    have o: "old = failedDownloads s" using A mem Appending by auto
    show ?thesis
      using R gB nB f o unfolding s' serial_def ws by (auto simp: recorded_snoc)
  next
    case Releasing
    then obtain B where ws: "workers s = B @ [(v, Releasing)]"
      and upd: "\<forall>q. (workers s)[k := (v, q)] = B @ [(v, q)]"
      and gB: "\<forall>w\<in>set B. \<not> inGate (snd w)"
      using last by auto
    have nB: "\<forall>w\<in>set B. snd w \<noteq> Failed \<and> (\<forall>old. snd w \<noteq> Appending old)"
      using gB by (metis inGate.simps(2,3))
    have s': "s' = s\<lparr>semaphore := semaphore s - 1, workers := B @ [(v, Finishing)]\<rparr>"
      using st k w Releasing upd by (auto simp: stepWorker_def split: if_splits)
    show ?thesis
      using R gB nB unfolding s' serial_def ws by (auto simp: recorded_snoc)
  next
    case Finishing
    show ?thesis
    proof (cases "0 < wg s")
      case False
      then have "s' = s\<lparr>crashed := Some NegativeWaitGroupCounter\<rparr>"
        using st k w Finishing by (simp add: stepWorker_def)
      then show ?thesis using x by (auto simp: serial_def)
    next
      case True
      then have s': "s' = s\<lparr>wg := wg s - 1, workers := (workers s)[k := (v, Done)]\<rparr>"
        using st k w Finishing by (simp add: stepWorker_def)
      have r: "recorded download ((workers s)[k := (v, Done)]) = recorded download (workers s)"
        using recorded_same [OF k w, of Done download] Finishing by simp
      have g: "\<forall>w\<in>set (butlast ((workers s)[k := (v, Done)])). \<not> inGate (snd w)"
      proof
        fix u assume "u \<in> set (butlast ((workers s)[k := (v, Done)]))"
        then have "u \<in> set (butlast (workers s)) \<or> u = (v, Done)"
          using set_update_cases [of u "butlast (workers s)" k "(v, Done)"]
          by (auto simp: butlast_list_update split: if_splits)
        then show "\<not> inGate (snd u)" using G by auto
      qed
      have m: "\<forall>u\<in>set ((workers s)[k := (v, Done)]). u = (v, Done) \<or> u \<in> set (workers s)"
        using set_update_cases by fast
      have A': "\<forall>u\<in>set ((workers s)[k := (v, Done)]).
          \<forall>old. snd u = Appending old \<longrightarrow> old = failedDownloads s"
        using m A by fastforce
      have F': "\<forall>u\<in>set ((workers s)[k := (v, Done)]).
          snd u = Failed \<or> (\<exists>old. snd u = Appending old) \<longrightarrow> failing download (fst u)"
        using m F by fastforce
      have "serial download (s\<lparr>wg := wg s - 1, workers := (workers s)[k := (v, Done)]\<rparr>)"
        unfolding serial_def
      proof (intro conjI)
        show "\<forall>w\<in>set (butlast (workers (s\<lparr>wg := wg s - 1,
            workers := (workers s)[k := (v, Done)]\<rparr>))). \<not> inGate (snd w)"
          using g by (simp del: butlast_list_update)
        show "failedDownloads (s\<lparr>wg := wg s - 1, workers := (workers s)[k := (v, Done)]\<rparr>)
            = recorded download (workers (s\<lparr>wg := wg s - 1,
                workers := (workers s)[k := (v, Done)]\<rparr>))"
          using R r by simp
        show "\<forall>w\<in>set (workers (s\<lparr>wg := wg s - 1, workers := (workers s)[k := (v, Done)]\<rparr>)).
            \<forall>old. snd w = Appending old \<longrightarrow>
              old = failedDownloads (s\<lparr>wg := wg s - 1,
                workers := (workers s)[k := (v, Done)]\<rparr>)"
          using A' by simp
        show "\<forall>w\<in>set (workers (s\<lparr>wg := wg s - 1, workers := (workers s)[k := (v, Done)]\<rparr>)).
            snd w = Failed \<or> (\<exists>old. snd w = Appending old) \<longrightarrow> failing download (fst w)"
          using F' by simp
      qed
      then show ?thesis unfolding s' .
    qed
  next
    case Done
    then show ?thesis using st k w by (simp add: stepWorker_def)
  qed
qed


lemma step_serial:
  assumes "inv 1 videos s" and "serial download s" and "step 1 download t s = Some s'"
  shows "serial download s'"
proof (cases t)
  case MainG
  then have "stepMain 1 s = Some s'" using assms(3) by (auto simp: step_def split: if_splits)
  with assms(1,2) show ?thesis by (rule stepMain_serial)
next
  case (Worker k)
  then have "stepWorker download k s = Some s'"
    using assms(3) by (auto simp: step_def split: if_splits)
  with assms(2) show ?thesis by (rule stepWorker_serial)
qed

lemma run_serial:
  "inv 1 videos s \<Longrightarrow> serial download s \<Longrightarrow> run 1 download schedule s = Some s'
     \<Longrightarrow> serial download s'"
proof (induction schedule arbitrary: s)
  case Nil
  then show ?case by simp
next
  case (Cons t ts)
  then obtain s1 where s1: "step 1 download t s = Some s1"
    and r: "run 1 download ts s1 = Some s'"
    by (auto split: option.splits)
  have "inv 1 videos s1" using Cons.prems(1) s1 by (rule step_inv)
  moreover have "serial download s1" using Cons.prems(1,2) s1 by (rule step_serial)
  ultimately show ?case using r by (rule Cons.IH)
qed

text \<open>
  With a pool of one worker, whatever the schedule, the slice at the return holds the
  titles of exactly the items whose download failed, in playlist order.
\<close>

lemma serial_failedDownloads:
  assumes r: "run 1 download schedule (initState videos) = Some s" and ret: "returned s"
  shows "failedDownloads s = map Title (filter (failing download) videos)"
proof -
  have i: "inv 1 videos s" using r by (rule reachable_inv)
  have x: "serial download s"
    using inv_initState serial_initState r by (rule run_serial)
  have p: "pending s = []" and u: "unfinished s = 0"
    and e: "map fst (workers s) @ pending s = videos"
    using i ret unfolding inv_def by auto
  have "\<forall>w\<in>set (workers s). pastAppend (snd w)" using u by (auto simp: unfinished_zero)
  then have "filter (\<lambda>w. pastAppend (snd w)) (workers s) = workers s" by simp
  then have "recorded download (workers s)
      = map Title (filter (failing download) (map fst (workers s)))"
    by (simp add: recorded_def)
  moreover have "map fst (workers s) = videos" using e p by simp
  moreover have "failedDownloads s = recorded download (workers s)"
    using x unfolding serial_def by blast
  ultimately show ?thesis by (simp only:)
qed

subsection \<open>A pool size below one\<close>

lemma run_blocked:
  assumes "parallel \<le> 0" and "schedule \<noteq> []"
  shows "run parallel download schedule (initState (v # vs)) = None"
proof -
  obtain t ts where sch: "schedule = t # ts" using assms(2) by (cases schedule) auto
  have "step parallel download t (initState (v # vs)) = None"
    using assms(1) by (cases t) (simp_all add: step_def stepMain_def stepWorker_def initState_def)
  then show ?thesis unfolding sch by simp
qed

text \<open>
  Claim C3 does not hold of the code: \<^verbatim>\<open>main\<close> never looks at the value of
  \<open>Parallel\<close>. With \<^verbatim>\<open>-p 0\<close> the gate is made with capacity 0 and the first send
  blocks for good, so the process neither reports an error nor exits, under any
  schedule; with \<^verbatim>\<open>-p -1\<close> the creation of the gate panics, after the playlist was
  resolved and the output directory made.
\<close>

theorem C3_no_pool_size_check:
  "Parallel (parsedConfig [''prog'', ''PL'', ''-p'', ''0'']) = 0
   \<and> (\<forall>schedule.
        exitCode (main [''prog'', ''PL'', ''-p'', ''0''] (failingWorld [entryA, entryB]) schedule)
          = None)
   \<and> Parallel (parsedConfig [''prog'', ''PL'', ''-p'', ''-1'']) = - 1
   \<and> (\<forall>schedule.
        main [''prog'', ''PL'', ''-p'', ''-1''] (failingWorld [entryA, entryB]) schedule
          = Crash MakechanSizeOutOfRange)"
proof (intro conjI allI)
  show z: "Parallel (parsedConfig [''prog'', ''PL'', ''-p'', ''0'']) = 0" by code_simp
  show m: "Parallel (parsedConfig [''prog'', ''PL'', ''-p'', ''-1'']) = - 1" by code_simp
  have t: "DownloadType (parsedConfig [''prog'', ''PL'', ''-p'', ''0'']) = ''video''"
    "DownloadType (parsedConfig [''prog'', ''PL'', ''-p'', ''-1'']) = ''video''"
    by code_simp+
  fix schedule :: "tid list"
  show "exitCode (main [''prog'', ''PL'', ''-p'', ''0''] (failingWorld [entryA, entryB]) schedule)
      = None"
  proof (cases "schedule = []")
    case True
    then show ?thesis
      using z t by (simp add: main_def Let_def DownloadPlaylist_def failingWorld_def initState_def)
  next
    case False
    then have "run 0 download schedule (initState [entryA, entryB]) = None" for download
      by (intro run_blocked) simp_all
    then show ?thesis
      using z t by (simp add: main_def Let_def DownloadPlaylist_def failingWorld_def)
  qed
  show "main [''prog'', ''PL'', ''-p'', ''-1''] (failingWorld [entryA, entryB]) schedule
      = Crash MakechanSizeOutOfRange"
    using m t by (simp add: main_def Let_def DownloadPlaylist_def failingWorld_def)
qed

end
